theory Spec2Isabelle
  imports Main "HOL-Library.AList"
begin

section \<open>Values, errors and validation results\<close>

text \<open>
  Field values are JavaScript values. Numbers are carried without arithmetic; the
  host's string-to-number conversion is a parameter of the environment below.
  Strings are lists of 8-bit characters.
\<close>

datatype jsval =
    Undefined
  | Null
  | JBool bool
  | JNum int
  | JStr string
  | JArr "jsval list"
  | JObj "(string \<times> jsval) list"

text \<open>\<open>HoneyFormFieldErrorType\<close> of \<open>types/field.types.ts\<close>.\<close>

datatype error_type = ErrRequired | ErrInvalid | ErrServer | ErrMin | ErrMax | ErrMinMax

text \<open>
  \<open>HoneyFormFieldErrorMessage = string | ReactElement\<close>: a plain text, or a rendered
  element (an object, hence always truthy), named here by a key.
\<close>

datatype error_message = Text string | Element string

text \<open>
  \<open>HoneyFormFieldError\<close>: a type and a message. The handler of a rejected promise
  builds \<open>{type: 'invalid', message: reason.message}\<close>, so when the rejection reason has
  no \<open>message\<close> property the error object it adds has an undefined message, although the
  declared type excludes that; the second constructor is such an object.
\<close>

datatype field_error =
    FieldError (etype: error_type) (message: error_message)
  | MessagelessError (etype: error_type)

text \<open>
  \<open>HoneyFormFieldValidationResult = boolean | HoneyFormFieldErrorMessage |
  HoneyFormFieldError[]\<close>; \<open>Nullable<...>\<close> is rendered by \<open>option\<close>, with \<open>None\<close>
  for \<open>null\<close>.
\<close>

datatype validation_result =
    VBool bool
  | VMsg error_message
  | VErrors "field_error list"

text \<open>
  The reason of a rejected promise can be any value. The code reads its \<open>message\<close>
  property and nothing else, so three kinds are told apart: an \<open>Error\<close> (or another
  object) whose message is the given string; a value without a \<open>message\<close> property (a
  string, a number, an object that has none), where the property reads as \<open>undefined\<close>;
  and \<open>null\<close> or \<open>undefined\<close>, where reading the property throws a \<open>TypeError\<close>.
  (The declared type of a reason is \<open>Error\<close>, whose message is a string; objects with a
  message of another type are not distinguished.)
\<close>

datatype rejection_reason = ErrorReason string | MessagelessReason | NullishReason

text \<open>A promise is represented by the way it settles: resolved with a validation
  result, or rejected with a reason.\<close>

datatype promise_outcome = Resolved validation_result | Rejected rejection_reason

text \<open>
  A custom validator answers at once, answers with a promise, or throws an exception
  (given by its message) before it returns. An exception thrown inside an \<open>async\<close>
  validator function is a rejected promise, not a throw of the call.
\<close>

datatype validator_response =
    Sync validation_result
  | Promise promise_outcome
  | Throws string

text \<open>A type validator (of \<open>validators.ts\<close>) answers at once or with a promise; all
  that is read of the promise is that it is one.\<close>

datatype type_validator_response = TypeSync validation_result | TypePromise

datatype field_type =
    FString | FNumeric | FNumber | FEmail
  | FCheckbox | FRadio | FFile
  | FObject
  | FNestedForms

section \<open>Fields\<close>

text \<open>
  The attributes of \<open>props\<close>, \<open>passiveProps\<close> and \<open>objectProps\<close> that the state
  transitions write. An attribute that is absent from the object is \<open>None\<close>.
\<close>

record html_attrs =
  attr_value :: "jsval option"
  attr_checked :: "jsval option"
  aria_invalid :: "bool option"
  aria_busy :: "bool option"

definition no_attrs :: html_attrs where
  "no_attrs = \<lparr>attr_value = None, attr_checked = None, aria_invalid = None, aria_busy = None\<rparr>"

text \<open>Object spread \<open>{...p}\<close> of a possibly undefined object.\<close>

definition spread :: "html_attrs option \<Rightarrow> html_attrs" where
  "spread p = (case p of None \<Rightarrow> no_attrs | Some a \<Rightarrow> a)"

text \<open>
  The data of a field (everything but its configuration). \<open>value'\<close> is the field's
  \<open>value\<close>; \<open>initialValue\<close> is the \<open>resultValue\<close> that \<open>createField\<close> computes and
  that the closure \<open>getChildFormsValues\<close> keeps.
\<close>

record field_data =
  errors :: "field_error list"
  defaultValue :: jsval
  rawValue :: jsval
  cleanValue :: jsval
  value' :: jsval
  isValidating :: bool
  props :: "html_attrs option"
  passiveProps :: "html_attrs option"
  objectProps :: "html_attrs option"
  initialValue :: jsval

type_synonym form_values = "(string \<times> jsval) list"

text \<open>
  What the callbacks of a configuration see of the form's fields: the data of every
  field, by name. (The source hands them the field objects, configurations included; a
  configuration cannot contain functions over configurations in HOL.) The form context is
  fixed during a transition, so callbacks are taken as already applied to it.
\<close>

type_synonym snapshot = "(string \<times> field_data) list"

text \<open>\<open>HoneyFormFieldDependsOn\<close>: a field name, a list of names, or a predicate on
  the initiator's name, the field's clean value, the form values and the fields.\<close>

datatype depends_on =
    DepName string
  | DepNames "string list"
  | DepFn "string \<Rightarrow> jsval \<Rightarrow> form_values \<Rightarrow> snapshot \<Rightarrow> bool"

text \<open>
  The parts of \<open>HoneyFormFieldConfig\<close> that the transitions read. A validator
  returns its response together with the names it passed to \<open>scheduleValidation\<close>
  during the call, in call order.
\<close>

record config =
  ftype :: field_type
  configDefaultValue :: jsval
  dependsOn :: "depends_on option"
  errorMessages :: "(error_type \<Rightarrow> error_message option) option"
  filterCfg :: "(jsval \<Rightarrow> jsval) option"
  formatter :: "(jsval \<Rightarrow> jsval) option"
  validator :: "(jsval \<Rightarrow> form_values \<Rightarrow> snapshot \<Rightarrow> validator_response \<times> string list) option"

record field = field_data +
  config :: config

text \<open>
  The field collection is a JavaScript object: names in insertion order, each with its
  field. \<open>map_of\<close> reads a property, \<open>AList.update\<close> assigns one (an existing name keeps
  its place, a new one goes last), \<open>map fst\<close> is \<open>Object.keys\<close>.
\<close>

type_synonym fields = "(string \<times> field) list"

definition snapshot_of :: "fields \<Rightarrow> snapshot" where
  "snapshot_of fs = map (\<lambda>(n, f). (n, field_data.truncate f)) fs"

text \<open>
  Modelled from the spec: the category predicates of \<open>helpers.ts\<close> (not among the
  sources). The category is determined by \<open>config.type\<close>: interactive
  (\<open>string\<close>, \<open>numeric\<close>, \<open>number\<close>, \<open>email\<close>), passive (\<open>checkbox\<close>, \<open>radio\<close>,
  \<open>file\<close>), \<open>object\<close> and \<open>nestedForms\<close>, as the type declarations list them.
\<close>

definition checkIfHoneyFormFieldIsInteractive :: "config \<Rightarrow> bool" where
  "checkIfHoneyFormFieldIsInteractive c \<longleftrightarrow> ftype c \<in> {FString, FNumeric, FNumber, FEmail}"

definition checkIfFieldIsPassive :: "config \<Rightarrow> bool" where
  "checkIfFieldIsPassive c \<longleftrightarrow> ftype c \<in> {FCheckbox, FRadio, FFile}"

definition checkIfFieldIsObject :: "config \<Rightarrow> bool" where
  "checkIfFieldIsObject c \<longleftrightarrow> ftype c = FObject"

definition checkIfFieldIsNestedForms :: "config \<Rightarrow> bool" where
  "checkIfFieldIsNestedForms c \<longleftrightarrow> ftype c = FNestedForms"

section \<open>Field state reducers (field.ts)\<close>

definition getNextErrorsFreeField :: "field \<Rightarrow> field" where
  "getNextErrorsFreeField formField =
     formField\<lparr>
       props :=
         (if checkIfHoneyFormFieldIsInteractive (config formField)
          then Some ((spread (props formField))\<lparr>aria_invalid := Some False\<rparr>) else None),
       passiveProps :=
         (if checkIfFieldIsPassive (config formField)
          then Some ((spread (passiveProps formField))\<lparr>aria_invalid := Some False\<rparr>) else None),
       objectProps :=
         (if checkIfFieldIsObject (config formField)
          then Some ((spread (objectProps formField))\<lparr>aria_invalid := Some False\<rparr>) else None),
       cleanValue := Undefined,
       errors := []\<rparr>"

definition getNextErredField :: "field \<Rightarrow> field_error list \<Rightarrow> field" where
  "getNextErredField formField fieldErrors =
     (let isFieldErred = (length fieldErrors > 0) in
      formField\<lparr>
        props :=
          (if checkIfHoneyFormFieldIsInteractive (config formField)
           then Some ((spread (props formField))\<lparr>aria_invalid := Some isFieldErred\<rparr>) else None),
        passiveProps :=
          (if checkIfFieldIsPassive (config formField)
           then Some ((spread (passiveProps formField))\<lparr>aria_invalid := Some isFieldErred\<rparr>) else None),
        objectProps :=
          (if checkIfFieldIsObject (config formField)
           then Some ((spread (objectProps formField))\<lparr>aria_invalid := Some isFieldErred\<rparr>) else None),
        errors := fieldErrors,
        cleanValue := (if length fieldErrors \<noteq> 0 then Undefined else cleanValue formField)\<rparr>)"

text \<open>\<open>a ?? b\<close>: \<open>b\<close> when \<open>a\<close> is \<open>null\<close> or \<open>undefined\<close>.\<close>

definition nullish_or :: "jsval \<Rightarrow> jsval \<Rightarrow> jsval" where
  "nullish_or a b = (if a = Undefined \<or> a = Null then b else a)"

definition getNextResetField :: "field \<Rightarrow> bool \<Rightarrow> field" where
  "getNextResetField formField isResetToDefault =
     (let errorsFreeField = getNextErrorsFreeField formField;
          newFieldValue = (if isResetToDefault then defaultValue errorsFreeField else Undefined)
      in errorsFreeField\<lparr>
        props :=
          (if checkIfHoneyFormFieldIsInteractive (config formField)
           then Some ((spread (props errorsFreeField))
                  \<lparr>attr_value := Some (nullish_or newFieldValue (JStr []))\<rparr>) else None),
        passiveProps :=
          (if checkIfFieldIsPassive (config formField)
           then Some (if ftype (config formField) = FCheckbox
                      then (spread (passiveProps errorsFreeField))
                             \<lparr>attr_checked := Some (defaultValue errorsFreeField)\<rparr>
                      else spread (passiveProps errorsFreeField)) else None),
        objectProps :=
          (if checkIfFieldIsObject (config formField)
           then Some ((spread (objectProps errorsFreeField))\<lparr>attr_value := Some newFieldValue\<rparr>)
           else None),
        value' := newFieldValue,
        rawValue := newFieldValue,
        cleanValue := newFieldValue\<rparr>)"

text \<open>JavaScript truthiness of a nullable validation result: \<open>null\<close>, \<open>false\<close> and the
  empty string are falsy; an array (even an empty one) and an element are truthy.\<close>

fun truthy :: "validation_result option \<Rightarrow> bool" where
  "truthy None = False"
| "truthy (Some (VBool b)) = b"
| "truthy (Some (VMsg (Text s))) = (s \<noteq> [])"
| "truthy (Some (VMsg (Element k))) = True"
| "truthy (Some (VErrors es)) = True"

text \<open>\<open>fieldConfig.errorMessages?.invalid ?? 'Invalid value'\<close>, with the fallback as a
  parameter.\<close>

definition invalidMessageOr :: "config \<Rightarrow> error_message \<Rightarrow> error_message" where
  "invalidMessageOr fieldConfig fallback =
     (case errorMessages fieldConfig of
        None \<Rightarrow> fallback
      | Some msgs \<Rightarrow> (case msgs ErrInvalid of None \<Rightarrow> fallback | Some m \<Rightarrow> m))"

text \<open>\<open>handleFieldValidationResult\<close> pushes onto the array \<open>fieldErrors\<close>; the model
  returns the array after the call.\<close>

definition handleFieldValidationResult ::
  "field_error list \<Rightarrow> config \<Rightarrow> validation_result option \<Rightarrow> field_error list" where
  "handleFieldValidationResult fieldErrors fieldConfig validationResult =
     (if truthy validationResult then
        (case validationResult of
           Some (VErrors es) \<Rightarrow> fieldErrors @ es
         | Some (VMsg m) \<Rightarrow> fieldErrors @ [FieldError ErrInvalid m]
         | _ \<Rightarrow> fieldErrors)
      else if validationResult = Some (VBool False) then
        fieldErrors @ [FieldError ErrInvalid (invalidMessageOr fieldConfig (Text ''Invalid value''))]
      else fieldErrors)"

definition getNextAsyncValidatingField :: "field \<Rightarrow> field" where
  "getNextAsyncValidatingField formField =
     formField\<lparr>isValidating := True,
               props := Some ((spread (props formField))\<lparr>aria_busy := Some True\<rparr>)\<rparr>"

definition getNextAsyncValidatedField :: "field \<Rightarrow> field" where
  "getNextAsyncValidatedField formField =
     formField\<lparr>isValidating := False,
               props := Some ((spread (props formField))\<lparr>aria_busy := Some False\<rparr>)\<rparr>"

definition getNextValidatedField ::
  "field_error list \<Rightarrow> validation_result option \<Rightarrow> field \<Rightarrow> jsval \<Rightarrow> field" where
  "getNextValidatedField fieldErrors validationResult formField cleanValue' =
     (let fieldErrors' = handleFieldValidationResult fieldErrors (config formField) validationResult
      in if length fieldErrors' \<noteq> 0 then getNextErredField formField fieldErrors'
         else (getNextErrorsFreeField formField)\<lparr>cleanValue := cleanValue'\<rparr>)"

definition getNextSingleFieldState :: "field \<Rightarrow> jsval \<Rightarrow> bool \<Rightarrow> field" where
  "getNextSingleFieldState formField fieldValue isFormat =
     (let formattedValue =
            (case formatter (config formField) of
               Some fmt \<Rightarrow>
                 if checkIfHoneyFormFieldIsInteractive (config formField) \<and> isFormat
                 then fmt fieldValue else fieldValue
             | None \<Rightarrow> fieldValue)
      in formField\<lparr>
        props :=
          (if checkIfHoneyFormFieldIsInteractive (config formField)
           then Some ((spread (props formField))\<lparr>attr_value := Some formattedValue\<rparr>) else None),
        passiveProps :=
          (if checkIfFieldIsPassive (config formField)
           then Some (if ftype (config formField) = FCheckbox
                      then (spread (passiveProps formField))\<lparr>attr_checked := Some fieldValue\<rparr>
                      else spread (passiveProps formField)) else None),
        objectProps :=
          (if checkIfFieldIsObject (config formField)
           then Some ((spread (objectProps formField))\<lparr>attr_value := Some fieldValue\<rparr>) else None),
        rawValue := fieldValue,
        value' := formattedValue\<rparr>)"

text \<open>The invariant of the data model: a field that has errors has no clean value.\<close>

definition cleanValueInvariant :: "field \<Rightarrow> bool" where
  "cleanValueInvariant f \<longleftrightarrow> (errors f \<noteq> [] \<longrightarrow> cleanValue f = Undefined)"

section \<open>Meta objects, effects and the environment\<close>

text \<open>
  What a transition can throw: a \<open>TypeError\<close> of the host, the error of an empty
  \<open>formFieldsRef\<close>, and the exception of a custom validator (with its message), which no
  transition catches. \<open>NotAField\<close> is explained at \<open>addFormFieldErrors\<close>.
\<close>

datatype error = TypeError | EmptyFormFieldsRef | NotAField | Thrown string

text \<open>
  A registered child form, as far as the parent reads it: the values of its current
  field collection (\<open>None\<close> when its \<open>formFieldsRef.current\<close> is empty) and what its
  \<open>validateForm\<close> resolves to. Child forms are separate form instances; their own
  transitions are not part of this development.
\<close>

record child_form =
  childFormValues :: "jsval option"
  childFormValid :: bool

text \<open>
  \<open>createField\<close> allocates one \<open>__meta__\<close> object per field and every reducer copies the
  reference, so all versions of a field share it and an assignment to it is seen through
  each of them. The meta objects are therefore kept in a store of their own, by field name.
\<close>

record field_meta =
  isValidationScheduled :: bool
  childForms :: "child_form list option"

text \<open>
  What a transition does besides computing fields: calls of \<open>scheduleValidation\<close>, calls
  of a field's custom validator (with the value passed), and the handler attached to a
  validator's promise (field name, the captured field's configuration, the promise, and
  whether a \<open>finishFieldAsyncValidation\<close> callback was supplied).
\<close>

datatype effect =
    Scheduled string
  | CustomValidatorCalled string jsval
  | AsyncValidation string config promise_outcome bool

record world =
  metas :: "string \<Rightarrow> field_meta"
  trace :: "effect list"

text \<open>The effects that a transition from \<open>w\<close> to \<open>w'\<close> added.\<close>

definition newEffects :: "world \<Rightarrow> world \<Rightarrow> effect list" where
  "newEffects w w' = drop (length (trace w)) (trace w')"

text \<open>
  Modelled from the spec: \<open>scheduleFieldValidation\<close> of \<open>helpers.ts\<close> (not among the
  sources) marks the given field's meta object for re-validation. The parameter type of
  \<open>scheduleValidation\<close> admits names of the form's fields only.
\<close>

definition scheduleFieldValidation :: "string \<Rightarrow> world \<Rightarrow> world" where
  "scheduleFieldValidation n w =
     w\<lparr>metas := (metas w)(n := (metas w n)\<lparr>isValidationScheduled := True\<rparr>),
       trace := trace w @ [Scheduled n]\<rparr>"

definition scheduleValidations :: "string list \<Rightarrow> world \<Rightarrow> world" where
  "scheduleValidations ns w = fold scheduleFieldValidation ns w"

text \<open>
  The parts of the repository and of the host that the sources import but that are not
  among them: \<open>Number\<close>, the type validator tables and the built-in validator lists of
  \<open>validators.ts\<close>, and \<open>getFormValues\<close> and \<open>checkIsSkipField\<close> of \<open>helpers.ts\<close>
  (the latter with the parent field and the form context fixed). A type validator answers
  \<open>null\<close>, a result or a promise, and reports the names it scheduled; a built-in validator
  reports the errors it pushes onto the error array it is given.
\<close>

type_synonym type_validator =
  "jsval \<Rightarrow> config \<Rightarrow> form_values \<Rightarrow> fields \<Rightarrow> type_validator_response option \<times> string list"

record env =
  toNumber :: "string \<Rightarrow> jsval"
  interactiveFieldTypeValidators :: "field_type \<Rightarrow> type_validator"
  passiveFieldTypeValidators :: "field_type \<Rightarrow> type_validator"
  builtInFieldValidators ::
    "(jsval \<Rightarrow> config \<Rightarrow> field_error list \<Rightarrow> fields \<Rightarrow> form_values \<Rightarrow> field_error list) list"
  builtInInteractiveFieldValidators ::
    "(jsval \<Rightarrow> config \<Rightarrow> field_error list \<Rightarrow> field_error list) list"
  getFormValues :: "fields \<Rightarrow> (string \<Rightarrow> field_meta) \<Rightarrow> form_values"
  checkIsSkipField :: "string \<Rightarrow> form_values \<Rightarrow> fields \<Rightarrow> bool"

section \<open>Validator dispatch (field.ts)\<close>

text \<open>\<open>DEFAULT_FIELD_VALUE_CONVERTORS_MAP\<close> has one entry, for \<open>number\<close>.\<close>

definition numberConvertor :: "env \<Rightarrow> jsval \<Rightarrow> jsval" where
  "numberConvertor e v =
     (case v of
        JStr s \<Rightarrow> if s \<noteq> [] then toNumber e (filter (\<lambda>c. c \<noteq> CHR '','') s) else Undefined
      | JNum n \<Rightarrow> JNum n
      | _ \<Rightarrow> Undefined)"

definition sanitizeFieldValue :: "env \<Rightarrow> field_type \<Rightarrow> jsval \<Rightarrow> jsval" where
  "sanitizeFieldValue e fieldType fieldValue =
     (if fieldType = FNumber then numberConvertor e fieldValue else fieldValue)"

definition executeFieldTypeValidator ::
  "env \<Rightarrow> fields \<Rightarrow> world \<Rightarrow> field \<Rightarrow> jsval \<Rightarrow> validation_result option \<times> world" where
  "executeFieldTypeValidator e formFields w formField fieldValue =
     (if checkIfFieldIsObject (config formField) \<or> checkIfFieldIsNestedForms (config formField)
      then (None, w)
      else
        let formValues = getFormValues e formFields (metas w);
            (validationResult, w') =
              (if checkIfHoneyFormFieldIsInteractive (config formField) then
                 (let (r, ns) = interactiveFieldTypeValidators e (ftype (config formField))
                                  fieldValue (config formField) formValues formFields
                  in (r, scheduleValidations ns w))
               else if checkIfFieldIsPassive (config formField) then
                 (let (r, ns) = passiveFieldTypeValidators e (ftype (config formField))
                                  fieldValue (config formField) formValues formFields
                  in (r, scheduleValidations ns w))
               else (None, w))
        in (case validationResult of
              Some (TypeSync r) \<Rightarrow> (Some r, w')
            | _ \<Rightarrow> (None, w')))"

definition executeInternalFieldValidators ::
  "env \<Rightarrow> jsval \<Rightarrow> config \<Rightarrow> field_error list \<Rightarrow> fields \<Rightarrow> form_values \<Rightarrow> field_error list" where
  "executeInternalFieldValidators e fieldValue fieldConfig fieldErrors formFields formValues =
     (let errs1 = fold (\<lambda>v errs. errs @ v fieldValue fieldConfig errs formFields formValues)
                    (builtInFieldValidators e) fieldErrors
      in if checkIfHoneyFormFieldIsInteractive fieldConfig
         then fold (\<lambda>v errs. errs @ v fieldValue fieldConfig errs)
                (builtInInteractiveFieldValidators e) errs1
         else errs1)"

text \<open>\<open>formField.config.errorMessages?.invalid\<close>.\<close>

definition configuredInvalidMessage :: "config \<Rightarrow> error_message option" where
  "configuredInvalidMessage fieldConfig =
     (case errorMessages fieldConfig of None \<Rightarrow> None | Some msgs \<Rightarrow> msgs ErrInvalid)"

text \<open>
  \<open>handleFieldAsyncValidationResult\<close>: the errors the handler passes to the field's
  \<open>addErrors\<close> or \<open>addError\<close> once the promise has settled; \<open>None\<close> when it makes no
  call. In the \<open>catch\<close> callback, \<open>errorMessages?.invalid ?? validationResult.message\<close>
  reads the reason's message only when no \<open>invalid\<close> message is configured; for a
  \<open>null\<close> or \<open>undefined\<close> reason that read throws inside the callback, the promise of the
  handler is rejected and the caller's \<open>.catch(noop)\<close> discards it, so no error is added.
\<close>

definition handleFieldAsyncValidationResult ::
  "config \<Rightarrow> promise_outcome \<Rightarrow> field_error list option" where
  "handleFieldAsyncValidationResult fieldConfig outcome =
     (case outcome of
        Resolved validationResult \<Rightarrow>
          (if truthy (Some validationResult) then
             (case validationResult of
                VErrors es \<Rightarrow> Some es
              | VMsg m \<Rightarrow> Some [FieldError ErrInvalid m]
              | VBool b \<Rightarrow> None)
           else if validationResult = VBool False then
             Some [FieldError ErrInvalid (invalidMessageOr fieldConfig (Text ''Invalid value''))]
           else None)
      | Rejected reason \<Rightarrow>
          (case configuredInvalidMessage fieldConfig of
             Some m \<Rightarrow> Some [FieldError ErrInvalid m]
           | None \<Rightarrow>
               (case reason of
                  ErrorReason msg \<Rightarrow> Some [FieldError ErrInvalid (Text msg)]
                | MessagelessReason \<Rightarrow> Some [MessagelessError ErrInvalid]
                | NullishReason \<Rightarrow> None)))"

text \<open>
  \<open>executeFieldValidator\<close>. Reading \<open>formFields[fieldName].config\<close> of a name without a
  field throws a \<open>TypeError\<close>. The flag \<open>finish\<close> says whether the caller supplied
  \<open>finishFieldAsyncValidation\<close>. The call of the custom validator is not inside a
  \<open>try\<close>: an exception it throws leaves the function.
\<close>

definition executeFieldValidator ::
  "env \<Rightarrow> fields \<Rightarrow> world \<Rightarrow> string \<Rightarrow> jsval \<Rightarrow> bool \<Rightarrow> error + (field \<times> world)" where
  "executeFieldValidator e formFields w fieldName fieldValue finish =
     (case map_of formFields fieldName of
        None \<Rightarrow> Inl TypeError
      | Some formField \<Rightarrow>
          let sanitizedValue = sanitizeFieldValue e (ftype (config formField)) fieldValue;
              (validationResult, w1) =
                executeFieldTypeValidator e formFields w formField sanitizedValue
          in if validationResult = None \<or> validationResult = Some (VBool True) then
               let formValues = getFormValues e formFields (metas w1);
                   fieldErrors = executeInternalFieldValidators e sanitizedValue
                                   (config formField) [] formFields formValues
               in (case validator (config formField) of
                     None \<Rightarrow>
                       Inr (getNextValidatedField fieldErrors validationResult formField
                              sanitizedValue, w1)
                   | Some v \<Rightarrow>
                       let (validationResponse, ns) =
                             v sanitizedValue formValues (snapshot_of formFields);
                           w2 = scheduleValidations ns
                                  (w1\<lparr>trace := trace w1 @
                                         [CustomValidatorCalled fieldName sanitizedValue]\<rparr>)
                       in (case validationResponse of
                             Promise p \<Rightarrow>
                               Inr (getNextValidatedField fieldErrors validationResult
                                      (getNextAsyncValidatingField formField) sanitizedValue,
                                    w2\<lparr>trace := trace w2 @
                                         [AsyncValidation fieldName (config formField) p finish]\<rparr>)
                           | Sync r \<Rightarrow>
                               Inr (getNextValidatedField fieldErrors (Some r) formField
                                      sanitizedValue, w2)
                           | Throws msg \<Rightarrow> Inl (Thrown msg)))
             else Inr (getNextValidatedField [] validationResult formField sanitizedValue, w1))"

text \<open>
  \<open>String.prototype.trimStart\<close> on 8-bit strings: the white space and line terminator
  characters below code 256 are TAB, LF, VT, FF, CR, SP and NBSP.
\<close>

definition isWhiteSpace :: "char \<Rightarrow> bool" where
  "isWhiteSpace c \<longleftrightarrow> (of_char c :: nat) \<in> {9, 10, 11, 12, 13, 32, 160}"

definition trimStart :: "string \<Rightarrow> string" where
  "trimStart s = dropWhile isWhiteSpace s"

definition trimStartIfString :: "jsval \<Rightarrow> jsval" where
  "trimStartIfString v = (case v of JStr s \<Rightarrow> JStr (trimStart s) | _ \<Rightarrow> v)"

text \<open>
  The closure \<open>getChildFormsValues\<close> of \<open>createField\<close>: the values of every registered
  child form (an empty \<open>formFieldsRef\<close> throws), or the field's initial value when no
  list of child forms is registered.
\<close>

definition getChildFormsValues :: "field \<Rightarrow> field_meta \<Rightarrow> error + jsval" where
  "getChildFormsValues formField fieldMeta =
     (case childForms fieldMeta of
        None \<Rightarrow> Inr (initialValue formField)
      | Some cfs \<Rightarrow>
          if \<exists>cf \<in> set cfs. childFormValues cf = None then Inl EmptyFormFieldsRef
          else Inr (JArr (map (\<lambda>cf. case childFormValues cf of Some v \<Rightarrow> v | None \<Rightarrow> Undefined) cfs)))"

text \<open>The value \<open>executeFieldValidatorAsync\<close> validates: for an interactive field the
  trimmed raw value goes through the filter when there is one, and the raw value is taken
  as it is otherwise.\<close>

definition asyncFieldValue :: "field \<Rightarrow> field_meta \<Rightarrow> error + jsval" where
  "asyncFieldValue formField fieldMeta =
     (if checkIfHoneyFormFieldIsInteractive (config formField) then
        (case filterCfg (config formField) of
           Some flt \<Rightarrow> Inr (flt (trimStartIfString (rawValue formField)))
         | None \<Rightarrow> Inr (rawValue formField))
      else if checkIfFieldIsNestedForms (config formField) then
        getChildFormsValues formField fieldMeta
      else Inr (rawValue formField))"

text \<open>
  \<open>executeFieldValidatorAsync\<close> awaits the custom validator's promise in place. Only the
  \<open>await\<close> is inside the \<open>try\<close>: a rejection is caught and \<open>error.message\<close> becomes the
  validation result (\<open>undefined\<close> for a reason without a message; for a \<open>null\<close> or
  \<open>undefined\<close> reason the read throws in the \<open>catch\<close> block), while an exception thrown
  by the call of the validator leaves the function.
\<close>

definition executeFieldValidatorAsync ::
  "env \<Rightarrow> fields \<Rightarrow> world \<Rightarrow> string \<Rightarrow> error + (field \<times> world)" where
  "executeFieldValidatorAsync e formFields w fieldName =
     (case map_of formFields fieldName of
        None \<Rightarrow> Inl TypeError
      | Some formField \<Rightarrow>
          (case asyncFieldValue formField (metas w fieldName) of
             Inl err \<Rightarrow> Inl err
           | Inr filteredValue \<Rightarrow>
               let sanitizedValue = sanitizeFieldValue e (ftype (config formField)) filteredValue;
                   (validationResult, w1) =
                     executeFieldTypeValidator e formFields w formField sanitizedValue
               in if validationResult = None \<or> validationResult = Some (VBool True) then
                    let formValues = getFormValues e formFields (metas w1);
                        fieldErrors = executeInternalFieldValidators e sanitizedValue
                                        (config formField) [] formFields formValues
                    in (case validator (config formField) of
                          None \<Rightarrow>
                            Inr (getNextValidatedField fieldErrors validationResult formField
                                   sanitizedValue, w1)
                        | Some v \<Rightarrow>
                            let (validationResponse, ns) =
                                  v sanitizedValue formValues (snapshot_of formFields);
                                w2 = scheduleValidations ns
                                       (w1\<lparr>trace := trace w1 @
                                              [CustomValidatorCalled fieldName sanitizedValue]\<rparr>)
                            in (case validationResponse of
                                  Promise (Resolved r) \<Rightarrow>
                                    Inr (getNextValidatedField fieldErrors (Some r) formField
                                           sanitizedValue, w2)
                                | Promise (Rejected (ErrorReason msg)) \<Rightarrow>
                                    Inr (getNextValidatedField fieldErrors (Some (VMsg (Text msg)))
                                           formField sanitizedValue, w2)
                                | Promise (Rejected MessagelessReason) \<Rightarrow>
                                    Inr (getNextValidatedField fieldErrors None formField
                                           sanitizedValue, w2)
                                | Promise (Rejected NullishReason) \<Rightarrow> Inl TypeError
                                | Sync r \<Rightarrow>
                                    Inr (getNextValidatedField fieldErrors (Some r) formField
                                           sanitizedValue, w2)
                                | Throws msg \<Rightarrow> Inl (Thrown msg)))
                  else Inr (getNextValidatedField [] validationResult formField sanitizedValue, w1)))"

section \<open>Dependency resolver (field.ts)\<close>

text \<open>
  Modelled from the spec: \<open>forEachFormField\<close> of \<open>helpers.ts\<close> (not among the sources)
  calls the callback for every name of the collection, in the order of \<open>Object.keys\<close>. The
  callbacks below assign to existing names only, so the keys do not change during a loop.
  A callback that throws ends the loop.
\<close>

fun forEachFormField :: "string list \<Rightarrow> (string \<Rightarrow> 's \<Rightarrow> error + 's) \<Rightarrow> 's \<Rightarrow> error + 's" where
  "forEachFormField [] callback s = Inr s"
| "forEachFormField (n # ns) callback s =
     (case callback n s of Inl err \<Rightarrow> Inl err | Inr s' \<Rightarrow> forEachFormField ns callback s')"

text \<open>\<open>initiatorFieldName || fieldName\<close>: \<open>null\<close> and the empty string are falsy.\<close>

definition initiatorOr :: "string option \<Rightarrow> string \<Rightarrow> string" where
  "initiatorOr initiatorFieldName fieldName =
     (case initiatorFieldName of
        None \<Rightarrow> fieldName
      | Some i \<Rightarrow> if i = [] then fieldName else i)"

definition isDependentOn ::
  "env \<Rightarrow> (string \<Rightarrow> field_meta) \<Rightarrow> fields \<Rightarrow> field \<Rightarrow> string \<Rightarrow> string \<Rightarrow> bool" where
  "isDependentOn e ms formFields otherField fieldName initiatorFieldName =
     (case dependsOn (config otherField) of
        Some (DepNames ns) \<Rightarrow> fieldName \<in> set ns
      | Some (DepFn p) \<Rightarrow>
          p initiatorFieldName (cleanValue otherField) (getFormValues e formFields ms)
            (snapshot_of formFields)
      | Some (DepName n) \<Rightarrow> fieldName = n
      | None \<Rightarrow> False)"

text \<open>
  \<open>resetDependentFields\<close> calls itself from inside its loop, and nothing in the source
  bounds the depth of these calls. The model counts them down from \<open>fuel\<close>: \<open>None\<close>
  says that a pass needs calls nested deeper than \<open>fuel\<close>. The first function is the loop
  over the remaining names of one call; \<open>fieldName\<close> is the trigger of the call and
  \<open>initiatorFieldName\<close> its initiator after the \<open>||\<close>.
\<close>

fun resetDependentFields_scan ::
  "nat \<Rightarrow> env \<Rightarrow> (string \<Rightarrow> field_meta) \<Rightarrow> string \<Rightarrow> string \<Rightarrow> string list \<Rightarrow> fields
     \<Rightarrow> (error + fields) option" where
  "resetDependentFields_scan fuel e ms fieldName initiatorFieldName [] formFields =
     Some (Inr formFields)"
| "resetDependentFields_scan fuel e ms fieldName initiatorFieldName (otherFieldName # rest) formFields =
     (if otherFieldName = fieldName then
        resetDependentFields_scan fuel e ms fieldName initiatorFieldName rest formFields
      else
        (case map_of formFields otherFieldName of
           None \<Rightarrow> Some (Inl TypeError)
         | Some otherField \<Rightarrow>
             if isDependentOn e ms formFields otherField fieldName initiatorFieldName then
               (let formFields1 =
                      AList.update otherFieldName (getNextResetField otherField False) formFields
                in if otherFieldName \<noteq> initiatorFieldName then
                     (case fuel of
                        0 \<Rightarrow> None
                      | Suc k \<Rightarrow>
                          (case resetDependentFields_scan k e ms otherFieldName
                                  (initiatorOr (Some fieldName) otherFieldName)
                                  (map fst formFields1) formFields1 of
                             None \<Rightarrow> None
                           | Some (Inl err) \<Rightarrow> Some (Inl err)
                           | Some (Inr formFields2) \<Rightarrow>
                               resetDependentFields_scan fuel e ms fieldName initiatorFieldName
                                 rest formFields2))
                   else
                     resetDependentFields_scan fuel e ms fieldName initiatorFieldName rest
                       formFields1)
             else
               resetDependentFields_scan fuel e ms fieldName initiatorFieldName rest formFields))"

definition resetDependentFields ::
  "nat \<Rightarrow> env \<Rightarrow> (string \<Rightarrow> field_meta) \<Rightarrow> fields \<Rightarrow> string \<Rightarrow> string option
     \<Rightarrow> (error + fields) option" where
  "resetDependentFields fuel e ms formFields fieldName initiatorFieldName =
     resetDependentFields_scan fuel e ms fieldName (initiatorOr initiatorFieldName fieldName)
       (map fst formFields) formFields"

definition processSkippableFields :: "env \<Rightarrow> (string \<Rightarrow> field_meta) \<Rightarrow> fields \<Rightarrow> error + fields" where
  "processSkippableFields e ms nextFormFields =
     (let formValues = getFormValues e nextFormFields ms in
      forEachFormField (map fst nextFormFields)
        (\<lambda>otherFieldName fs.
           if checkIsSkipField e otherFieldName formValues fs then
             (case map_of fs otherFieldName of
                None \<Rightarrow> Inl TypeError
              | Some f \<Rightarrow> Inr (AList.update otherFieldName (getNextErrorsFreeField f) fs))
           else Inr fs)
        nextFormFields)"

definition resetAllFields :: "fields \<Rightarrow> fields" where
  "resetAllFields nextFormFields = map (\<lambda>(n, f). (n, getNextResetField f True)) nextFormFields"

text \<open>The value a scheduled field is re-validated with.\<close>

definition scheduledFieldValue :: "field \<Rightarrow> field_meta \<Rightarrow> error + jsval" where
  "scheduledFieldValue nextFormField fieldMeta =
     (case (if checkIfHoneyFormFieldIsInteractive (config nextFormField)
            then filterCfg (config nextFormField) else None) of
        Some flt \<Rightarrow> Inr (flt (rawValue nextFormField))
      | None \<Rightarrow>
          if checkIfFieldIsNestedForms (config nextFormField)
          then getChildFormsValues nextFormField fieldMeta
          else Inr (rawValue nextFormField))"

definition clearValidationScheduled :: "string \<Rightarrow> world \<Rightarrow> world" where
  "clearValidationScheduled n w =
     w\<lparr>metas := (metas w)(n := (metas w n)\<lparr>isValidationScheduled := False\<rparr>)\<rparr>"

text \<open>The callback of the loop of \<open>triggerScheduledFieldsValidations\<close>.\<close>

definition scheduledFieldCallback ::
  "env \<Rightarrow> string \<Rightarrow> bool \<Rightarrow> form_values \<Rightarrow> string \<Rightarrow> fields \<times> world \<Rightarrow> error + fields \<times> world" where
  "scheduledFieldCallback e fieldName finish formValues otherFieldName s =
     (case s of (nextFormFields, w) \<Rightarrow>
        if otherFieldName = fieldName then Inr (nextFormFields, w)
        else
          (case map_of nextFormFields otherFieldName of
             None \<Rightarrow> Inl TypeError
           | Some nextFormField \<Rightarrow>
               if isValidationScheduled (metas w otherFieldName) then
                 (if \<not> checkIsSkipField e otherFieldName formValues nextFormFields then
                    (case scheduledFieldValue nextFormField (metas w otherFieldName) of
                       Inl err \<Rightarrow> Inl err
                     | Inr filteredValue \<Rightarrow>
                         (case executeFieldValidator e nextFormFields w otherFieldName
                                 filteredValue finish of
                            Inl err \<Rightarrow> Inl err
                          | Inr (f, w') \<Rightarrow>
                              Inr (AList.update otherFieldName f nextFormFields,
                                   clearValidationScheduled otherFieldName w')))
                  else Inr (nextFormFields, clearValidationScheduled otherFieldName w))
               else Inr (nextFormFields, w)))"

definition triggerScheduledFieldsValidations ::
  "env \<Rightarrow> string \<Rightarrow> bool \<Rightarrow> fields \<times> world \<Rightarrow> error + fields \<times> world" where
  "triggerScheduledFieldsValidations e fieldName finish s =
     (let formValues = getFormValues e (fst s) (metas (snd s)) in
      forEachFormField (map fst (fst s))
        (scheduledFieldCallback e fieldName finish formValues) s)"

text \<open>
  \<open>getNextFieldsState\<close>. The result is \<open>None\<close> when the reset pass needs more nested
  calls than \<open>fuel\<close>, \<open>Some (Inl err)\<close> when the source throws, and the next collection
  with the effects otherwise.
\<close>

definition getNextFieldsState ::
  "nat \<Rightarrow> env \<Rightarrow> string \<Rightarrow> jsval \<Rightarrow> fields \<Rightarrow> bool \<Rightarrow> bool \<Rightarrow> bool \<Rightarrow> world
     \<Rightarrow> (error + fields \<times> world) option" where
  "getNextFieldsState fuel e fieldName fieldValue formFields isValidate isFormat finish w =
     (case map_of formFields fieldName of
        None \<Rightarrow> Some (Inl TypeError)
      | Some nextFormField0 \<Rightarrow>
          let filteredValue =
                (if checkIfHoneyFormFieldIsInteractive (config nextFormField0) then
                   (case filterCfg (config nextFormField0) of
                      Some flt \<Rightarrow> flt (trimStartIfString fieldValue)
                    | None \<Rightarrow> trimStartIfString fieldValue)
                 else fieldValue);
              validated =
                (if isValidate then
                   (case resetDependentFields fuel e (metas w) formFields fieldName None of
                      None \<Rightarrow> None
                    | Some (Inl err) \<Rightarrow> Some (Inl err)
                    | Some (Inr nextFormFields) \<Rightarrow>
                        (case executeFieldValidator e nextFormFields w fieldName filteredValue
                                finish of
                           Inl err \<Rightarrow> Some (Inl err)
                         | Inr (f, w') \<Rightarrow> Some (Inr (nextFormFields, f, w'))))
                 else Some (Inr (formFields, getNextErrorsFreeField nextFormField0, w)))
          in (case validated of
                None \<Rightarrow> None
              | Some (Inl err) \<Rightarrow> Some (Inl err)
              | Some (Inr (nextFormFields, nextFormField, w')) \<Rightarrow>
                  (let nextFormFields1 =
                         AList.update fieldName
                           (getNextSingleFieldState nextFormField filteredValue isFormat)
                           nextFormFields
                   in case processSkippableFields e (metas w') nextFormFields1 of
                        Inl err \<Rightarrow> Some (Inl err)
                      | Inr nextFormFields2 \<Rightarrow>
                          Some (triggerScheduledFieldsValidations e fieldName finish
                                  (nextFormFields2, w')))))"

section \<open>Form orchestrator (hooks/use-base-honey-form)\<close>

text \<open>
  \<open>addFormFieldErrors\<close>. For a name without a field the source stores an object that
  has an \<open>errors\<close> property only; such an object is not a field, and the model stops there
  with \<open>NotAField\<close>.
\<close>

definition addFormFieldErrors :: "fields \<Rightarrow> string \<Rightarrow> field_error list \<Rightarrow> error + fields" where
  "addFormFieldErrors formFields fieldName errs =
     (case map_of formFields fieldName of
        None \<Rightarrow> Inl NotAField
      | Some formField \<Rightarrow>
          Inr (AList.update fieldName (formField\<lparr>errors := errors formField @ errs\<rparr>) formFields))"

definition finishFieldAsyncValidation :: "fields \<Rightarrow> string \<Rightarrow> error + fields" where
  "finishFieldAsyncValidation formFields fieldName =
     (case map_of formFields fieldName of
        None \<Rightarrow> Inl TypeError
      | Some formField \<Rightarrow>
          Inr (AList.update fieldName (getNextAsyncValidatedField formField) formFields))"

definition clearFieldErrors :: "fields \<Rightarrow> string \<Rightarrow> error + fields" where
  "clearFieldErrors formFields fieldName =
     (case map_of formFields fieldName of
        None \<Rightarrow> Inl TypeError
      | Some formField \<Rightarrow>
          Inr (AList.update fieldName (getNextErrorsFreeField formField) formFields))"

text \<open>\<open>setFormErrors\<close> sets the given errors on every named field, through
  \<open>getNextErredField\<close>.\<close>

definition setFormErrors :: "fields \<Rightarrow> (string \<times> field_error list) list \<Rightarrow> error + fields" where
  "setFormErrors formFields formErrors =
     fold (\<lambda>(fieldName, fieldErrors) r.
             case r of
               Inl err \<Rightarrow> Inl err
             | Inr fs \<Rightarrow>
                 (case map_of fs fieldName of
                    None \<Rightarrow> Inl TypeError
                  | Some f \<Rightarrow> Inr (AList.update fieldName (getNextErredField f fieldErrors) fs)))
       formErrors (Inr formFields)"

text \<open>
  What happens once the promise of an \<open>AsyncValidation\<close> effect has settled: the handler
  appends its errors through \<open>addFormFieldErrors\<close>, and then the completion callback, when
  one was supplied, runs \<open>finishFieldAsyncValidation\<close>. Both act on the field collection
  of that later moment.
\<close>

definition settleAsyncValidation ::
  "fields \<Rightarrow> string \<Rightarrow> config \<Rightarrow> promise_outcome \<Rightarrow> bool \<Rightarrow> error + fields" where
  "settleAsyncValidation formFields fieldName fieldConfig outcome finish =
     (case (case handleFieldAsyncValidationResult fieldConfig outcome of
              None \<Rightarrow> Inr formFields
            | Some errs \<Rightarrow> addFormFieldErrors formFields fieldName errs) of
        Inl err \<Rightarrow> Inl err
      | Inr formFields1 \<Rightarrow>
          if finish then finishFieldAsyncValidation formFields1 fieldName else Inr formFields1)"

text \<open>
  Modelled from the spec: \<open>runChildFormsValidation\<close> of \<open>helpers.ts\<close> (not among the
  sources) runs \<open>validateForm\<close> of every child form registered on the field and reports
  whether one of them found errors.
\<close>

definition runChildFormsValidation :: "field_meta \<Rightarrow> bool" where
  "runChildFormsValidation fieldMeta =
     (case childForms fieldMeta of
        None \<Rightarrow> False
      | Some cfs \<Rightarrow> list_ex (\<lambda>cf. \<not> childFormValid cf) cfs)"

record form =
  formFieldsRef :: "fields option"
  isFormValidRef :: bool

definition isNotValidated ::
  "env \<Rightarrow> string list option \<Rightarrow> string list option \<Rightarrow> form_values \<Rightarrow> fields \<Rightarrow> string \<Rightarrow> bool" where
  "isNotValidated e targetFields excludeFields formValues formFields fieldName =
     (let isTargetFieldValidation =
            (case targetFields of
               None \<Rightarrow> True
             | Some ts \<Rightarrow> if length ts \<noteq> 0 then fieldName \<in> set ts else True);
          isExcludeFieldFromValidation =
            (case excludeFields of None \<Rightarrow> False | Some es \<Rightarrow> fieldName \<in> set es)
      in isExcludeFieldFromValidation \<or> \<not> isTargetFieldValidation
         \<or> checkIsSkipField e fieldName formValues formFields)"

text \<open>
  The callbacks of \<open>validateForm\<close> that reach their first \<open>await\<close>, one field after the
  other: the child forms' validation, then the field's own, then the update of
  \<open>hasErrors\<close> and of \<open>nextFormFields\<close>.
\<close>

fun validateFields ::
  "env \<Rightarrow> fields \<Rightarrow> string list \<Rightarrow> bool \<times> fields \<times> world \<Rightarrow> error + bool \<times> fields \<times> world" where
  "validateFields e formFields [] acc = Inr acc"
| "validateFields e formFields (fieldName # rest) (hasErrors, nextFormFields, w) =
     (let hasChildFormsErrors = runChildFormsValidation (metas w fieldName) in
      case executeFieldValidatorAsync e formFields w fieldName of
        Inl err \<Rightarrow> Inl err
      | Inr (nextField, w') \<Rightarrow>
          validateFields e formFields rest
            (hasErrors \<or> hasChildFormsErrors
               \<or> list_ex (\<lambda>fieldError. etype fieldError \<noteq> ErrServer) (errors nextField),
             AList.update fieldName nextField nextFormFields, w'))"

text \<open>
  \<open>validateForm\<close>. All callbacks of \<open>Promise.all\<close> start at once: a field that is
  excluded, not targeted or skipped is stored without errors before any callback resumes,
  the others are stored as their validations complete. The model completes them in key
  order; the order in which validators of different fields settle in time is not
  represented.
\<close>

definition validateForm ::
  "env \<Rightarrow> form \<Rightarrow> world \<Rightarrow> string list option \<Rightarrow> string list option
     \<Rightarrow> error + bool \<times> form \<times> world" where
  "validateForm e frm w targetFields excludeFields =
     (case formFieldsRef frm of
        None \<Rightarrow> Inl EmptyFormFieldsRef
      | Some formFields \<Rightarrow>
          let formValues = getFormValues e formFields (metas w);
              notValidated = isNotValidated e targetFields excludeFields formValues formFields;
              nextFormFields0 =
                map (\<lambda>(n, f). (n, getNextErrorsFreeField f))
                  (filter (\<lambda>(n, f). notValidated n) formFields)
          in (case validateFields e formFields
                     (filter (\<lambda>n. \<not> notValidated n) (map fst formFields))
                     (False, nextFormFields0, w) of
                Inl err \<Rightarrow> Inl err
              | Inr (hasErrors, nextFormFields, w') \<Rightarrow>
                  Inr (\<not> hasErrors,
                       frm\<lparr>isFormValidRef := \<not> hasErrors, formFieldsRef := Some nextFormFields\<rparr>,
                       w')))"

section \<open>Auxiliary notions\<close>

text \<open>
  How the meta objects and the trace evolve while validators run: the trace is only
  extended, the child forms stay as they are, and a validation flag that is set afterwards
  was set before or was scheduled in between.
\<close>

definition worldGrows :: "world \<Rightarrow> world \<Rightarrow> bool" where
  "worldGrows w w' \<longleftrightarrow>
     take (length (trace w)) (trace w') = trace w
     \<and> (\<forall>m. isValidationScheduled (metas w' m)
            \<longrightarrow> isValidationScheduled (metas w m) \<or> Scheduled m \<in> set (newEffects w w'))
     \<and> (\<forall>m. childForms (metas w' m) = childForms (metas w m))"

text \<open>The invariant of the data model, for every field of a collection.\<close>

definition allFieldsInvariant :: "fields \<Rightarrow> bool" where
  "allFieldsInvariant fs \<longleftrightarrow> (\<forall>n f. map_of fs n = Some f \<longrightarrow> cleanValueInvariant f)"

text \<open>
  The dependency graph of a collection. A name or a list declares the fields it names. A
  predicate is asked about the initiator of a scan, with the state of that moment; its
  field may depend on every name of which the predicate can hold, in some state.
\<close>

definition configOf :: "fields \<Rightarrow> string \<Rightarrow> config option" where
  "configOf fs x = map_option config (map_of fs x)"

definition declaresDependency :: "config \<Rightarrow> string \<Rightarrow> bool" where
  "declaresDependency c t \<longleftrightarrow>
     (case dependsOn c of
        Some (DepName n) \<Rightarrow> t = n
      | Some (DepNames ns) \<Rightarrow> t \<in> set ns
      | _ \<Rightarrow> False)"

definition predicateMayHold :: "config \<Rightarrow> string \<Rightarrow> bool" where
  "predicateMayHold c t \<longleftrightarrow>
     (case dependsOn c of
        Some (DepFn p) \<Rightarrow> (\<exists>v fv snap. p t v fv snap)
      | _ \<Rightarrow> False)"

text \<open>\<open>mayDependOn x c t\<close>: the field \<open>x\<close> with configuration \<open>c\<close> may depend on \<open>t\<close>.
  (A scan never asks a field about itself by name, so a field that names itself does not
  depend on itself; a predicate can be asked about its own field.)\<close>

definition mayDependOn :: "string \<Rightarrow> config \<Rightarrow> string \<Rightarrow> bool" where
  "mayDependOn x c t \<longleftrightarrow> (x \<noteq> t \<and> declaresDependency c t) \<or> predicateMayHold c t"

text \<open>The configuration is acyclic when some rank decreases along every possible
  dependency between fields of the collection. The least such rank of a field is the
  length of the longest chain of dependencies that ends in it.\<close>

definition acyclicRank :: "fields \<Rightarrow> (string \<Rightarrow> nat) \<Rightarrow> bool" where
  "acyclicRank fs rank \<longleftrightarrow>
     (\<forall>x c t. configOf fs x = Some c \<and> configOf fs t \<noteq> None \<and> mayDependOn x c t
        \<longrightarrow> rank x < rank t)"

text \<open>Whether every dependency of the collection is declared by name or by list.\<close>

definition noPredicates :: "fields \<Rightarrow> bool" where
  "noPredicates fs \<longleftrightarrow>
     list_all (\<lambda>(n, f). case dependsOn (config f) of Some (DepFn p) \<Rightarrow> False | _ \<Rightarrow> True) fs"

text \<open>
  How deep the scans nest below a scan with trigger \<open>t\<close> and initiator \<open>i\<close>, at most. A
  name or a list is matched against the trigger, so without predicates the rank of the
  trigger bounds the depth. A predicate is asked about the initiator, which is the trigger
  of the enclosing scan, so its field can be reset one scan deeper than the field it
  depends on, and the bound doubles. \<open>passDepth\<close> is the bound for the pass of a changed
  field, which is its own initiator.
\<close>

definition scanDepth :: "fields \<Rightarrow> (string \<Rightarrow> nat) \<Rightarrow> string \<Rightarrow> string \<Rightarrow> nat" where
  "scanDepth fs rank t i =
     (if noPredicates fs then rank t
      else if rank t < rank i then 2 * rank i - 1 else 2 * rank t)"

definition passDepth :: "fields \<Rightarrow> (string \<Rightarrow> nat) \<Rightarrow> string \<Rightarrow> nat" where
  "passDepth fs rank a = (if noPredicates fs then rank a else 2 * rank a)"

text \<open>\<open>dependsChain cf x y\<close>: \<open>y\<close> is \<open>x\<close>, or is reached from \<open>x\<close> through fields that
  each declare the one before. \<open>dependsChainAvoiding cf S x y\<close> is the same with no field
  of \<open>S\<close> before \<open>y\<close> on the way.\<close>

inductive dependsChain :: "(string \<Rightarrow> config option) \<Rightarrow> string \<Rightarrow> string \<Rightarrow> bool"
  for cf :: "string \<Rightarrow> config option" and x :: string where
  chain_refl: "dependsChain cf x x"
| chain_step: "dependsChain cf x y \<Longrightarrow> cf z = Some c \<Longrightarrow> z \<noteq> y \<Longrightarrow> declaresDependency c y
               \<Longrightarrow> dependsChain cf x z"

inductive dependsChainAvoiding ::
  "(string \<Rightarrow> config option) \<Rightarrow> string set \<Rightarrow> string \<Rightarrow> string \<Rightarrow> bool"
  for cf :: "string \<Rightarrow> config option" and S :: "string set" and x :: string where
  avoiding_refl: "dependsChainAvoiding cf S x x"
| avoiding_step: "dependsChainAvoiding cf S x y \<Longrightarrow> y \<notin> S \<Longrightarrow> cf z = Some c \<Longrightarrow> z \<noteq> y
               \<Longrightarrow> declaresDependency c y \<Longrightarrow> dependsChainAvoiding cf S x z"

text \<open>What the reset leaves of a field: no errors and no values.\<close>

definition cleared :: "field \<Rightarrow> bool" where
  "cleared g \<longleftrightarrow>
     errors g = [] \<and> rawValue g = Undefined \<and> cleanValue g = Undefined \<and> value' g = Undefined"

definition clearedAt :: "fields \<Rightarrow> string \<Rightarrow> bool" where
  "clearedAt fs y \<longleftrightarrow> (\<exists>g. map_of fs y = Some g \<and> cleared g)"

section \<open>Example configurations\<close>

text \<open>Concrete configurations, fields and environments at which the theorems below are
  instantiated.\<close>

definition plainConfig :: "field_type \<Rightarrow> config" where
  "plainConfig t =
     \<lparr>ftype = t, configDefaultValue = Undefined, dependsOn = None, errorMessages = None,
      filterCfg = None, formatter = None, validator = None\<rparr>"

definition plainField :: "config \<Rightarrow> jsval \<Rightarrow> field" where
  "plainField c v =
     \<lparr>errors = [], defaultValue = configDefaultValue c, rawValue = v, cleanValue = v,
      value' = v, isValidating = False, props = None, passiveProps = None,
      objectProps = None, initialValue = configDefaultValue c, config = c\<rparr>"

definition plainEnv :: env where
  "plainEnv =
     \<lparr>toNumber = (\<lambda>s. Undefined),
      interactiveFieldTypeValidators = (\<lambda>t v c fv fs. (None, [])),
      passiveFieldTypeValidators = (\<lambda>t v c fv fs. (None, [])),
      builtInFieldValidators = [],
      builtInInteractiveFieldValidators = [],
      getFormValues = (\<lambda>fs ms. map (\<lambda>(n, f). (n, cleanValue f)) fs),
      checkIsSkipField = (\<lambda>n fv fs. False)\<rparr>"

definition plainWorld :: world where
  "plainWorld =
     \<lparr>metas = (\<lambda>n. \<lparr>isValidationScheduled = False, childForms = None\<rparr>), trace = []\<rparr>"

text \<open>A configuration with a custom \<open>invalid\<close> message.\<close>

definition messageConfig :: config where
  "messageConfig =
     (plainConfig FString)\<lparr>errorMessages := Some (\<lambda>t. if t = ErrInvalid then Some (Text ''Not allowed'') else None)\<rparr>"

text \<open>The field stored under a name in the result of a transition.\<close>

definition fieldOf :: "error + fields \<Rightarrow> string \<Rightarrow> field option" where
  "fieldOf r n = (case r of Inl err \<Rightarrow> None | Inr fs \<Rightarrow> map_of fs n)"

text \<open>An environment whose built-in stage reports a \<open>required\<close> error for a missing or
  empty value, and a configuration whose custom validator rejects every value with a
  message.\<close>

definition requiredEnv :: env where
  "requiredEnv =
     plainEnv\<lparr>builtInFieldValidators :=
       [\<lambda>v c errs fs fv.
          if v = Undefined \<or> v = JStr [] then [FieldError ErrRequired (Text ''Required'')] else []]\<rparr>"

definition customConfig :: config where
  "customConfig =
     (plainConfig FString)\<lparr>validator := Some (\<lambda>v fv snap. (Sync (VMsg (Text ''Too short'')), []))\<rparr>"




definition resolvingFalseConfig :: config where
  "resolvingFalseConfig =
     (plainConfig FString)
       \<lparr>validator := Some (\<lambda>v fv snap. (Promise (Resolved (VBool False)), []))\<rparr>"



text \<open>
  Three fields: the validator of \<open>period\<close> schedules \<open>from\<close> and \<open>to\<close>, and the
  validator of \<open>to\<close> schedules \<open>from\<close>.
\<close>

definition schedulingConfig :: "string list \<Rightarrow> config" where
  "schedulingConfig ns =
     (plainConfig FString)\<lparr>validator := Some (\<lambda>v fv snap. (Sync (VBool True), ns))\<rparr>"

definition periodFields :: fields where
  "periodFields =
     [(''period'', plainField (schedulingConfig [''from'', ''to'']) (JStr ''week'')),
      (''from'', plainField (plainConfig FString) (JStr ''mon'')),
      (''to'', plainField (schedulingConfig [''from'']) (JStr ''sun''))]"

text \<open>The meta objects after the validator of \<open>period\<close> has run.\<close>

definition periodWorld :: world where
  "periodWorld = scheduleValidations [''from'', ''to''] plainWorld"

text \<open>
  A chain of dependencies (\<open>city\<close> depends on \<open>country\<close>, \<open>street\<close> on \<open>city\<close>) with
  default values, and two fields that depend on each other.
\<close>

definition dependentConfig :: "string \<Rightarrow> jsval \<Rightarrow> config" where
  "dependentConfig n d =
     (plainConfig FString)\<lparr>dependsOn := Some (DepName n), configDefaultValue := d\<rparr>"

definition addressFields :: fields where
  "addressFields =
     [(''country'', plainField (plainConfig FString) (JStr ''NL'')),
      (''city'', (plainField (dependentConfig ''country'' (JStr ''Paris'')) (JStr ''Lyon''))
                   \<lparr>errors := [FieldError ErrInvalid (Text ''Unknown city'')],
                    cleanValue := Undefined\<rparr>),
      (''street'', plainField (dependentConfig ''city'' (JStr ''Main'')) (JStr ''Rue A''))]"

definition addressRank :: "string \<Rightarrow> nat" where
  "addressRank n = (if n = ''country'' then 2 else if n = ''city'' then 1 else 0)"

definition cycleFields :: fields where
  "cycleFields =
     [(''a'', plainField (dependentConfig ''b'' Undefined) (JStr ''x'')),
      (''b'', plainField (dependentConfig ''a'' Undefined) (JStr ''y''))]"

text \<open>
  Predicate declarations. In \<open>predicateFields\<close> the predicates of \<open>x1\<close> and \<open>x2\<close> hold
  of \<open>a\<close> and of no other name, so the longest chain of dependencies has length one. In
  \<open>mixedFields\<close>, \<open>b\<close> names \<open>a\<close> and the predicate of \<open>z\<close> holds of \<open>b\<close> only.
\<close>

definition predicateConfig :: "string \<Rightarrow> config" where
  "predicateConfig n =
     (plainConfig FString)\<lparr>dependsOn := Some (DepFn (\<lambda>i v fv snap. i = n))\<rparr>"

definition predicateFields :: fields where
  "predicateFields =
     [(''a'', plainField (plainConfig FString) (JStr ''x'')),
      (''x1'', plainField (predicateConfig ''a'') (JStr ''y'')),
      (''x2'', plainField (predicateConfig ''a'') (JStr ''z''))]"

definition predicateRank :: "string \<Rightarrow> nat" where
  "predicateRank n = (if n = ''a'' then 1 else 0)"

definition mixedFields :: fields where
  "mixedFields =
     [(''a'', plainField (plainConfig FString) (JStr ''x'')),
      (''b'', plainField (dependentConfig ''a'' Undefined) (JStr ''y'')),
      (''z'', plainField (predicateConfig ''b'') (JStr ''keep''))]"

section \<open>Properties\<close>


subsection \<open>The reducers, field by field\<close>

lemma getNextErrorsFreeField_simps [simp]:
  "errors (getNextErrorsFreeField f) = []"
  "cleanValue (getNextErrorsFreeField f) = Undefined"
  "config (getNextErrorsFreeField f) = config f"
  "rawValue (getNextErrorsFreeField f) = rawValue f"
  "value' (getNextErrorsFreeField f) = value' f"
  "isValidating (getNextErrorsFreeField f) = isValidating f"
  "defaultValue (getNextErrorsFreeField f) = defaultValue f"
  "initialValue (getNextErrorsFreeField f) = initialValue f"
  by (simp_all add: getNextErrorsFreeField_def)

lemma getNextErredField_simps [simp]:
  "errors (getNextErredField f es) = es"
  "cleanValue (getNextErredField f es) = (if es \<noteq> [] then Undefined else cleanValue f)"
  "config (getNextErredField f es) = config f"
  "rawValue (getNextErredField f es) = rawValue f"
  "value' (getNextErredField f es) = value' f"
  "isValidating (getNextErredField f es) = isValidating f"
  "defaultValue (getNextErredField f es) = defaultValue f"
  "initialValue (getNextErredField f es) = initialValue f"
  by (simp_all add: getNextErredField_def Let_def)

lemma getNextResetField_simps [simp]:
  "errors (getNextResetField f b) = []"
  "cleanValue (getNextResetField f b) = (if b then defaultValue f else Undefined)"
  "rawValue (getNextResetField f b) = (if b then defaultValue f else Undefined)"
  "value' (getNextResetField f b) = (if b then defaultValue f else Undefined)"
  "config (getNextResetField f b) = config f"
  "isValidating (getNextResetField f b) = isValidating f"
  "defaultValue (getNextResetField f b) = defaultValue f"
  "initialValue (getNextResetField f b) = initialValue f"
  by (simp_all add: getNextResetField_def Let_def)

lemma getNextValidatedField_simps [simp]:
  "errors (getNextValidatedField es vr f c) = handleFieldValidationResult es (config f) vr"
  "cleanValue (getNextValidatedField es vr f c)
     = (if handleFieldValidationResult es (config f) vr \<noteq> [] then Undefined else c)"
  "config (getNextValidatedField es vr f c) = config f"
  "rawValue (getNextValidatedField es vr f c) = rawValue f"
  "value' (getNextValidatedField es vr f c) = value' f"
  "isValidating (getNextValidatedField es vr f c) = isValidating f"
  "defaultValue (getNextValidatedField es vr f c) = defaultValue f"
  "initialValue (getNextValidatedField es vr f c) = initialValue f"
  by (simp_all add: getNextValidatedField_def Let_def)

lemma getNextAsyncValidatingField_simps [simp]:
  "isValidating (getNextAsyncValidatingField f)"
  "errors (getNextAsyncValidatingField f) = errors f"
  "cleanValue (getNextAsyncValidatingField f) = cleanValue f"
  "config (getNextAsyncValidatingField f) = config f"
  "rawValue (getNextAsyncValidatingField f) = rawValue f"
  "value' (getNextAsyncValidatingField f) = value' f"
  "defaultValue (getNextAsyncValidatingField f) = defaultValue f"
  "initialValue (getNextAsyncValidatingField f) = initialValue f"
  by (simp_all add: getNextAsyncValidatingField_def)

lemma getNextAsyncValidatedField_simps [simp]:
  "\<not> isValidating (getNextAsyncValidatedField f)"
  "errors (getNextAsyncValidatedField f) = errors f"
  "cleanValue (getNextAsyncValidatedField f) = cleanValue f"
  "config (getNextAsyncValidatedField f) = config f"
  "rawValue (getNextAsyncValidatedField f) = rawValue f"
  "value' (getNextAsyncValidatedField f) = value' f"
  "defaultValue (getNextAsyncValidatedField f) = defaultValue f"
  "initialValue (getNextAsyncValidatedField f) = initialValue f"
  by (simp_all add: getNextAsyncValidatedField_def)

lemma getNextSingleFieldState_simps [simp]:
  "rawValue (getNextSingleFieldState f v b) = v"
  "errors (getNextSingleFieldState f v b) = errors f"
  "cleanValue (getNextSingleFieldState f v b) = cleanValue f"
  "config (getNextSingleFieldState f v b) = config f"
  "isValidating (getNextSingleFieldState f v b) = isValidating f"
  "defaultValue (getNextSingleFieldState f v b) = defaultValue f"
  "initialValue (getNextSingleFieldState f v b) = initialValue f"
  by (simp_all add: getNextSingleFieldState_def Let_def split: option.splits)

subsection \<open>Scheduling and the trace\<close>

lemma scheduleFieldValidation_simps [simp]:
  "trace (scheduleFieldValidation n w) = trace w @ [Scheduled n]"
  "metas (scheduleFieldValidation n w) m
     = (if m = n then (metas w n)\<lparr>isValidationScheduled := True\<rparr> else metas w m)"
  by (simp_all add: scheduleFieldValidation_def)

lemma trace_scheduleValidations [simp]:
  "trace (scheduleValidations ns w) = trace w @ map Scheduled ns"
  unfolding scheduleValidations_def
  by (induction ns arbitrary: w) simp_all

lemma childForms_scheduleValidations [simp]:
  "childForms (metas (scheduleValidations ns w) m) = childForms (metas w m)"
  unfolding scheduleValidations_def
  by (induction ns arbitrary: w) simp_all

lemma scheduled_scheduleValidations [simp]:
  "isValidationScheduled (metas (scheduleValidations ns w) m)
     \<longleftrightarrow> m \<in> set ns \<or> isValidationScheduled (metas w m)"
  unfolding scheduleValidations_def
  by (induction ns arbitrary: w) auto

lemma executeFieldTypeValidator_trace:
  "executeFieldTypeValidator e fs w f v = (vr, w1) \<Longrightarrow> \<exists>ns. w1 = scheduleValidations ns w"
  unfolding executeFieldTypeValidator_def Let_def
  by (auto split: if_splits prod.splits option.splits type_validator_response.splits
      intro: exI [of _ "[]"] simp: scheduleValidations_def)

subsection \<open>The clean-value invariant\<close>

lemma cleanValueInvariant_reducers:
  "cleanValueInvariant (getNextErrorsFreeField f)"
  "cleanValueInvariant (getNextErredField f es)"
  "cleanValueInvariant (getNextResetField f b)"
  "cleanValueInvariant (getNextValidatedField es vr f c)"
  "cleanValueInvariant f \<Longrightarrow> cleanValueInvariant (getNextSingleFieldState f v fmt)"
  "cleanValueInvariant f \<Longrightarrow> cleanValueInvariant (getNextAsyncValidatingField f)"
  "cleanValueInvariant f \<Longrightarrow> cleanValueInvariant (getNextAsyncValidatedField f)"
  by (simp_all add: cleanValueInvariant_def)

lemma cleanValueInvariant_executeFieldValidator:
  "executeFieldValidator e fs w n v fin = Inr (f, w') \<Longrightarrow> cleanValueInvariant f"
  unfolding executeFieldValidator_def Let_def
  by (auto simp: cleanValueInvariant_def
      split: option.splits prod.splits if_splits validator_response.splits)

lemma cleanValueInvariant_executeFieldValidatorAsync:
  "executeFieldValidatorAsync e fs w n = Inr (f, w') \<Longrightarrow> cleanValueInvariant f"
  unfolding executeFieldValidatorAsync_def Let_def
  by (auto simp: cleanValueInvariant_def
      split: option.splits prod.splits if_splits validator_response.splits sum.splits
        promise_outcome.splits rejection_reason.splits)

subsection \<open>Validation results\<close>

text \<open>
  C5, as the claim states it, fails: \<open>null\<close> is a falsy result that is neither an array
  nor a string, and it yields no error at all.
\<close>

theorem C5_null_result_counterexample:
  "handleFieldValidationResult [] (plainConfig FObject) None = []"
  by (simp add: handleFieldValidationResult_def)

text \<open>
  C5, amended. After stage 1, the result \<open>false\<close> yields exactly one \<open>invalid\<close> error whose
  message is \<open>config.errorMessages.invalid\<close> when configured and \<open>Invalid value\<close>
  otherwise; \<open>null\<close> yields no error; an array is appended to the error list verbatim; a
  non-empty string or an element yields exactly one \<open>invalid\<close> error with that message;
  \<open>true\<close> yields no error.
\<close>

theorem C5_handleFieldValidationResult:
  "(errorMessages cfg = None \<longrightarrow>
      handleFieldValidationResult errs cfg (Some (VBool False))
        = errs @ [FieldError ErrInvalid (Text ''Invalid value'')])
   \<and> (\<forall>msgs m. errorMessages cfg = Some msgs \<and> msgs ErrInvalid = Some m \<longrightarrow>
      handleFieldValidationResult errs cfg (Some (VBool False)) = errs @ [FieldError ErrInvalid m])
   \<and> (\<forall>msgs. errorMessages cfg = Some msgs \<and> msgs ErrInvalid = None \<longrightarrow>
      handleFieldValidationResult errs cfg (Some (VBool False))
        = errs @ [FieldError ErrInvalid (Text ''Invalid value'')])
   \<and> handleFieldValidationResult errs cfg None = errs
   \<and> handleFieldValidationResult errs cfg (Some (VErrors es)) = errs @ es
   \<and> (s \<noteq> [] \<longrightarrow> handleFieldValidationResult errs cfg (Some (VMsg (Text s)))
        = errs @ [FieldError ErrInvalid (Text s)])
   \<and> handleFieldValidationResult errs cfg (Some (VMsg (Element k)))
        = errs @ [FieldError ErrInvalid (Element k)]
   \<and> handleFieldValidationResult errs cfg (Some (VBool True)) = errs"
  by (simp add: handleFieldValidationResult_def invalidMessageOr_def)

theorem C5_handleFieldValidationResult_witness:
  "handleFieldValidationResult [] (plainConfig FString) (Some (VBool False))
     = [FieldError ErrInvalid (Text ''Invalid value'')]
   \<and> handleFieldValidationResult [] messageConfig (Some (VBool False))
     = [FieldError ErrInvalid (Text ''Not allowed'')]
   \<and> handleFieldValidationResult [] messageConfig (Some (VMsg (Text ''bad'')))
     = [FieldError ErrInvalid (Text ''bad'')]"
  using C5_handleFieldValidationResult [of "plainConfig FString" "[]" "[]" "''bad''" "''k''"]
        C5_handleFieldValidationResult [of messageConfig "[]" "[]" "''bad''" "''k''"]
  by (simp add: plainConfig_def messageConfig_def)

subsection \<open>The stages of the validator dispatch\<close>

text \<open>Definitions to unfold when a transition is evaluated at a concrete input.\<close>

lemmas evaluation_defs =
  executeFieldValidator_def executeFieldValidatorAsync_def executeFieldTypeValidator_def
  executeInternalFieldValidators_def asyncFieldValue_def scheduledFieldValue_def
  getChildFormsValues_def sanitizeFieldValue_def numberConvertor_def
  handleFieldValidationResult_def handleFieldAsyncValidationResult_def invalidMessageOr_def
  checkIfFieldIsObject_def checkIfFieldIsNestedForms_def checkIfFieldIsPassive_def
  checkIfHoneyFormFieldIsInteractive_def scheduleValidations_def snapshot_of_def
  plainEnv_def plainField_def plainConfig_def plainWorld_def fieldOf_def Let_def

lemma newEffects_append [simp]: "trace w' = trace w @ xs \<Longrightarrow> newEffects w w' = xs"
  by (simp add: newEffects_def)

lemma executeFieldValidator_unfold:
  assumes "map_of fs n = Some f"
    and "executeFieldTypeValidator e fs w f (sanitizeFieldValue e (ftype (config f)) fv) = (vr, w1)"
  shows "executeFieldValidator e fs w n fv fin =
     (let sv = sanitizeFieldValue e (ftype (config f)) fv in
      if vr = None \<or> vr = Some (VBool True) then
        let formValues = getFormValues e fs (metas w1);
            fieldErrors = executeInternalFieldValidators e sv (config f) [] fs formValues
        in (case validator (config f) of
              None \<Rightarrow> Inr (getNextValidatedField fieldErrors vr f sv, w1)
            | Some v \<Rightarrow>
                let (validationResponse, ns) = v sv formValues (snapshot_of fs);
                    w2 = scheduleValidations ns
                           (w1\<lparr>trace := trace w1 @ [CustomValidatorCalled n sv]\<rparr>)
                in (case validationResponse of
                      Promise p \<Rightarrow>
                        Inr (getNextValidatedField fieldErrors vr
                               (getNextAsyncValidatingField f) sv,
                             w2\<lparr>trace := trace w2 @ [AsyncValidation n (config f) p fin]\<rparr>)
                    | Sync r \<Rightarrow> Inr (getNextValidatedField fieldErrors (Some r) f sv, w2)
                    | Throws msg \<Rightarrow> Inl (Thrown msg)))
      else Inr (getNextValidatedField [] vr f sv, w1))"
  using assms by (simp add: executeFieldValidator_def Let_def)

lemma executeFieldValidatorAsync_unfold:
  assumes "map_of fs n = Some f"
    and "asyncFieldValue f (metas w n) = Inr fv"
    and "executeFieldTypeValidator e fs w f (sanitizeFieldValue e (ftype (config f)) fv) = (vr, w1)"
  shows "executeFieldValidatorAsync e fs w n =
     (let sv = sanitizeFieldValue e (ftype (config f)) fv in
      if vr = None \<or> vr = Some (VBool True) then
        let formValues = getFormValues e fs (metas w1);
            fieldErrors = executeInternalFieldValidators e sv (config f) [] fs formValues
        in (case validator (config f) of
              None \<Rightarrow> Inr (getNextValidatedField fieldErrors vr f sv, w1)
            | Some v \<Rightarrow>
                let (validationResponse, ns) = v sv formValues (snapshot_of fs);
                    w2 = scheduleValidations ns
                           (w1\<lparr>trace := trace w1 @ [CustomValidatorCalled n sv]\<rparr>)
                in (case validationResponse of
                      Promise (Resolved r) \<Rightarrow>
                        Inr (getNextValidatedField fieldErrors (Some r) f sv, w2)
                    | Promise (Rejected (ErrorReason msg)) \<Rightarrow>
                        Inr (getNextValidatedField fieldErrors (Some (VMsg (Text msg))) f sv, w2)
                    | Promise (Rejected MessagelessReason) \<Rightarrow>
                        Inr (getNextValidatedField fieldErrors None f sv, w2)
                    | Promise (Rejected NullishReason) \<Rightarrow> Inl TypeError
                    | Sync r \<Rightarrow> Inr (getNextValidatedField fieldErrors (Some r) f sv, w2)
                    | Throws msg \<Rightarrow> Inl (Thrown msg)))
      else Inr (getNextValidatedField [] vr f sv, w1))"
  using assms by (simp add: executeFieldValidatorAsync_def Let_def)

text \<open>
  C4, as the claim states it, fails: the built-in stage reports a \<open>required\<close> error for the
  empty value, and the custom validator is called all the same (its call is in the trace,
  its error in the result).
\<close>

theorem C4_builtin_failure_counterexample:
  "map_sum id (\<lambda>(f, w). (errors f, trace w))
     (executeFieldValidator requiredEnv [(''name'', plainField customConfig (JStr []))]
        plainWorld ''name'' (JStr []) False)
   = Inr ([FieldError ErrRequired (Text ''Required''), FieldError ErrInvalid (Text ''Too short'')],
          [CustomValidatorCalled ''name'' (JStr [])])"
  by (simp add: evaluation_defs requiredEnv_def customConfig_def)

text \<open>
  C4, amended. In \<open>executeFieldValidator\<close> and in \<open>executeFieldValidatorAsync\<close>, a
  configured custom validator is called if and only if the type validator stage produced
  no failure (its result is \<open>null\<close> or \<open>true\<close>); errors of the built-in stage do not keep
  it from being called. (When the function does not return, because the validator threw or
  because its promise was rejected with \<open>null\<close> or \<open>undefined\<close>, the validator had been
  called, and the type validator stage had produced no failure.)
\<close>

theorem C4_custom_validator_called:
  assumes "map_of fs n = Some f"
    and "validator (config f) = Some v"
    and "asyncFieldValue f (metas w n) = Inr av"
    and "executeFieldTypeValidator e fs w f (sanitizeFieldValue e (ftype (config f)) fv) = (vr, w1)"
    and "executeFieldTypeValidator e fs w f (sanitizeFieldValue e (ftype (config f)) av) = (vr', w1')"
  shows "((\<exists>f' w'. executeFieldValidator e fs w n fv fin = Inr (f', w')
            \<and> (CustomValidatorCalled n (sanitizeFieldValue e (ftype (config f)) fv)
                  \<in> set (newEffects w w')
                \<longleftrightarrow> vr = None \<or> vr = Some (VBool True)))
          \<or> (\<exists>msg. executeFieldValidator e fs w n fv fin = Inl (Thrown msg)
                \<and> (vr = None \<or> vr = Some (VBool True))))
       \<and> ((\<exists>f' w'. executeFieldValidatorAsync e fs w n = Inr (f', w')
            \<and> (CustomValidatorCalled n (sanitizeFieldValue e (ftype (config f)) av)
                  \<in> set (newEffects w w')
                \<longleftrightarrow> vr' = None \<or> vr' = Some (VBool True)))
          \<or> (\<exists>err. executeFieldValidatorAsync e fs w n = Inl err
                \<and> (err = TypeError \<or> (\<exists>msg. err = Thrown msg))
                \<and> (vr' = None \<or> vr' = Some (VBool True))))"
proof -
  obtain ns where w1: "w1 = scheduleValidations ns w"
    using executeFieldTypeValidator_trace [OF assms(4)] by blast
  obtain ns' where w1': "w1' = scheduleValidations ns' w"
    using executeFieldTypeValidator_trace [OF assms(5)] by blast
  have sync: "(\<exists>f' w'. executeFieldValidator e fs w n fv fin = Inr (f', w')
            \<and> (CustomValidatorCalled n (sanitizeFieldValue e (ftype (config f)) fv)
                  \<in> set (newEffects w w')
                \<longleftrightarrow> vr = None \<or> vr = Some (VBool True)))
          \<or> (\<exists>msg. executeFieldValidator e fs w n fv fin = Inl (Thrown msg)
                \<and> (vr = None \<or> vr = Some (VBool True)))"
    unfolding executeFieldValidator_unfold [OF assms(1) assms(4)] Let_def
    using assms(2) w1
    by (auto split: prod.splits validator_response.splits simp: image_iff)
  have async: "(\<exists>f' w'. executeFieldValidatorAsync e fs w n = Inr (f', w')
            \<and> (CustomValidatorCalled n (sanitizeFieldValue e (ftype (config f)) av)
                  \<in> set (newEffects w w')
                \<longleftrightarrow> vr' = None \<or> vr' = Some (VBool True)))
          \<or> (\<exists>err. executeFieldValidatorAsync e fs w n = Inl err
                \<and> (err = TypeError \<or> (\<exists>msg. err = Thrown msg))
                \<and> (vr' = None \<or> vr' = Some (VBool True)))"
    unfolding executeFieldValidatorAsync_unfold [OF assms(1) assms(3) assms(5)] Let_def
    using assms(2) w1'
    by (auto split: prod.splits validator_response.splits promise_outcome.splits
        rejection_reason.splits simp: image_iff)
  from sync async show ?thesis by blast
qed

theorem C4_custom_validator_called_witness:
  "(\<exists>f' w'. executeFieldValidator requiredEnv [(''name'', plainField customConfig (JStr []))]
               plainWorld ''name'' (JStr []) False = Inr (f', w')
            \<and> CustomValidatorCalled ''name'' (JStr []) \<in> set (newEffects plainWorld w'))
   \<and> (\<exists>f' w'. executeFieldValidatorAsync requiredEnv
                 [(''name'', plainField customConfig (JStr []))] plainWorld ''name'' = Inr (f', w')
            \<and> CustomValidatorCalled ''name'' (JStr []) \<in> set (newEffects plainWorld w'))"
proof -
  let ?f = "plainField customConfig (JStr [])"
  let ?fs = "[(''name'', ?f)]"
  have h1: "map_of ?fs ''name'' = Some ?f" by simp
  have h2: "validator (config ?f) = Some (\<lambda>v fv snap. (Sync (VMsg (Text ''Too short'')), []))"
    by (simp add: plainField_def customConfig_def)
  have h3: "asyncFieldValue ?f (metas plainWorld ''name'') = Inr (JStr [])"
    by (simp add: evaluation_defs customConfig_def)
  have h4: "executeFieldTypeValidator requiredEnv ?fs plainWorld ?f
              (sanitizeFieldValue requiredEnv (ftype (config ?f)) (JStr [])) = (None, plainWorld)"
    by (simp add: evaluation_defs customConfig_def requiredEnv_def)
  have r1: "\<exists>p. executeFieldValidator requiredEnv ?fs plainWorld ''name'' (JStr []) False = Inr p"
    by (simp add: evaluation_defs requiredEnv_def customConfig_def)
  have r2: "\<exists>p. executeFieldValidatorAsync requiredEnv ?fs plainWorld ''name'' = Inr p"
    by (simp add: evaluation_defs requiredEnv_def customConfig_def)
  have sv: "sanitizeFieldValue requiredEnv (ftype (config ?f)) (JStr []) = JStr []"
    by (simp add: sanitizeFieldValue_def plainField_def customConfig_def plainConfig_def)
  from C4_custom_validator_called [OF h1 h2 h3 h4 h4, of False] r1 r2
  show ?thesis unfolding sv by auto
qed

subsection \<open>Asynchronous custom validators\<close>

lemma map_of_update_same [simp]: "map_of (AList.update k v al) k = Some v"
  by (simp add: AList.update_conv')

text \<open>
  C6. When the custom validator of a field returns a promise, \<open>executeFieldValidator\<close>
  returns a field with \<open>isValidating = true\<close> whose errors are exactly those of the
  built-in stage (the type validator stage produced none), and attaches a handler to the
  promise; once the promise has settled, the handler appends its errors through
  \<open>addFormFieldErrors\<close> and the completion callback \<open>finishFieldAsyncValidation\<close> sets
  \<open>isValidating\<close> back to \<open>false\<close>, acting on the collection of that later moment.
\<close>

theorem C6_promise_leaves_field_validating:
  assumes "map_of fs n = Some f"
    and "validator (config f) = Some v"
    and "executeFieldTypeValidator e fs w f (sanitizeFieldValue e (ftype (config f)) fv) = (vr, w1)"
    and "vr = None \<or> vr = Some (VBool True)"
    and "v (sanitizeFieldValue e (ftype (config f)) fv) (getFormValues e fs (metas w1))
           (snapshot_of fs) = (Promise p, ns)"
    and "map_of fs2 n = Some g"
  shows "(\<exists>f' w'. executeFieldValidator e fs w n fv fin = Inr (f', w')
            \<and> isValidating f'
            \<and> errors f' = executeInternalFieldValidators e
                  (sanitizeFieldValue e (ftype (config f)) fv) (config f) [] fs
                  (getFormValues e fs (metas w1))
            \<and> AsyncValidation n (config f) p fin \<in> set (newEffects w w'))
       \<and> (\<exists>fs3 g'. settleAsyncValidation fs2 n (config f) p True = Inr fs3
            \<and> map_of fs3 n = Some g'
            \<and> \<not> isValidating g'
            \<and> errors g' = errors g @
                 (case handleFieldAsyncValidationResult (config f) p of
                    None \<Rightarrow> [] | Some errs \<Rightarrow> errs))"
proof -
  obtain ms where w1: "w1 = scheduleValidations ms w"
    using executeFieldTypeValidator_trace [OF assms(3)] by blast
  have a: "\<exists>f' w'. executeFieldValidator e fs w n fv fin = Inr (f', w')
            \<and> isValidating f'
            \<and> errors f' = executeInternalFieldValidators e
                  (sanitizeFieldValue e (ftype (config f)) fv) (config f) [] fs
                  (getFormValues e fs (metas w1))
            \<and> AsyncValidation n (config f) p fin \<in> set (newEffects w w')"
    unfolding executeFieldValidator_unfold [OF assms(1) assms(3)] Let_def
    using assms(2,4,5) w1
    by (auto simp: handleFieldValidationResult_def)
  have b: "\<exists>fs3 g'. settleAsyncValidation fs2 n (config f) p True = Inr fs3
            \<and> map_of fs3 n = Some g'
            \<and> \<not> isValidating g'
            \<and> errors g' = errors g @
                 (case handleFieldAsyncValidationResult (config f) p of
                    None \<Rightarrow> [] | Some errs \<Rightarrow> errs)"
    using assms(6)
    by (auto simp: settleAsyncValidation_def addFormFieldErrors_def
        finishFieldAsyncValidation_def split: option.splits)
  from a b show ?thesis by blast
qed

theorem C6_promise_leaves_field_validating_witness:
  "(\<exists>f' w'. executeFieldValidator plainEnv
               [(''username'', plainField resolvingFalseConfig (JStr ''bob''))] plainWorld
               ''username'' (JStr ''bob'') True = Inr (f', w')
            \<and> isValidating f' \<and> errors f' = []
            \<and> AsyncValidation ''username'' resolvingFalseConfig (Resolved (VBool False)) True
                 \<in> set (newEffects plainWorld w'))
   \<and> (\<exists>fs3 g'. settleAsyncValidation
                  [(''username'',
                    getNextAsyncValidatingField (plainField resolvingFalseConfig (JStr ''bob'')))]
                  ''username'' resolvingFalseConfig (Resolved (VBool False)) True = Inr fs3
            \<and> map_of fs3 ''username'' = Some g'
            \<and> \<not> isValidating g'
            \<and> errors g' = [FieldError ErrInvalid (Text ''Invalid value'')])"
proof -
  let ?f = "plainField resolvingFalseConfig (JStr ''bob'')"
  let ?fs = "[(''username'', ?f)]"
  let ?v = "\<lambda>(v::jsval) (fv::form_values) (snap::snapshot). (Promise (Resolved (VBool False)), []::string list)"
  have h1: "map_of ?fs ''username'' = Some ?f" by simp
  have h2: "validator (config ?f) = Some ?v"
    by (simp add: plainField_def resolvingFalseConfig_def)
  have h3: "executeFieldTypeValidator plainEnv ?fs plainWorld ?f
              (sanitizeFieldValue plainEnv (ftype (config ?f)) (JStr ''bob'')) = (None, plainWorld)"
    by (simp add: evaluation_defs resolvingFalseConfig_def)
  have h4: "(None :: validation_result option) = None \<or> None = Some (VBool True)" by simp
  have h5: "?v (sanitizeFieldValue plainEnv (ftype (config ?f)) (JStr ''bob''))
              (getFormValues plainEnv ?fs (metas plainWorld)) (snapshot_of ?fs)
            = (Promise (Resolved (VBool False)), [])" by simp
  have h6: "map_of [(''username'', getNextAsyncValidatingField ?f)] ''username''
            = Some (getNextAsyncValidatingField ?f)" by simp
  show ?thesis
    using C6_promise_leaves_field_validating [OF h1 h2 h3 h4 h5 h6, of True]
    by (simp add: evaluation_defs resolvingFalseConfig_def)
qed




text \<open>
  With \<open>errorMessages.invalid\<close> configured, the handler attached to the promise reports
  the configured message for a rejection and not the rejection's own message, unlike
  \<open>executeFieldValidatorAsync\<close> and unlike its own description (\<open>it adds an error with
  the rejection reason\<close>).
\<close>

lemma handler_reports_configured_message:
  "handleFieldAsyncValidationResult messageConfig (Rejected (ErrorReason ''boom''))
   = Some [FieldError ErrInvalid (Text ''Not allowed'')]"
  by (simp add: handleFieldAsyncValidationResult_def configuredInvalidMessage_def
      messageConfig_def plainConfig_def)

subsection \<open>Loops over the field names\<close>

lemma forEachFormField_invariant:
  assumes "forEachFormField ns cb s = Inr s'"
    and "P s"
    and "\<And>n t t'. P t \<Longrightarrow> cb n t = Inr t' \<Longrightarrow> P t'"
  shows "P s'"
  using assms(1,2)
proof (induction ns arbitrary: s)
  case Nil
  then show ?case by simp
next
  case (Cons n ns)
  from Cons.prems(1) obtain t where t: "cb n s = Inr t" and rest: "forEachFormField ns cb t = Inr s'"
    by (simp split: sum.splits)
  from assms(3) [OF Cons.prems(2) t] have "P t" .
  from Cons.IH [OF rest this] show ?case .
qed

lemma map_of_update_other [simp]: "k' \<noteq> k \<Longrightarrow> map_of (AList.update k v al) k' = map_of al k'"
  by (simp add: AList.update_conv')

lemma processSkippableFields_rawValue:
  assumes "processSkippableFields e ms fs = Inr fs'"
    and "map_of fs n = Some g"
  shows "\<exists>g'. map_of fs' n = Some g' \<and> rawValue g' = rawValue g \<and> config g' = config g"
proof -
  let ?P = "\<lambda>t. \<exists>g'. map_of t n = Some g' \<and> rawValue g' = rawValue g \<and> config g' = config g"
  let ?cb = "\<lambda>otherFieldName fs.
           if checkIsSkipField e otherFieldName (getFormValues e fs ms) fs then
             (case map_of fs otherFieldName of
                None \<Rightarrow> Inl TypeError
              | Some f \<Rightarrow> Inr (AList.update otherFieldName (getNextErrorsFreeField f) fs))
           else Inr fs"
  have step: "?P t'"
    if "?P t" and c: "(if b then (case map_of t m of None \<Rightarrow> Inl TypeError
              | Some f \<Rightarrow> Inr (AList.update m (getNextErrorsFreeField f) t)) else Inr t) = Inr t'"
    for m t t' b
  proof (cases b)
    case False
    with c that(1) show ?thesis by simp
  next
    case True
    with c obtain f where f: "map_of t m = Some f"
      and t': "t' = AList.update m (getNextErrorsFreeField f) t"
      by (simp split: option.splits)
    show ?thesis
    proof (cases "m = n")
      case True
      with f t' that(1) show ?thesis by simp
    next
      case False
      with t' that(1) show ?thesis by simp
    qed
  qed
  from assms(1) have loop: "forEachFormField (map fst fs)
      (\<lambda>m t. if checkIsSkipField e m (getFormValues e fs ms) t
              then (case map_of t m of None \<Rightarrow> Inl TypeError
                    | Some f \<Rightarrow> Inr (AList.update m (getNextErrorsFreeField f) t))
              else Inr t) fs = Inr fs'"
    by (simp add: processSkippableFields_def Let_def)
  show ?thesis
    by (rule forEachFormField_invariant [where P = ?P, OF loop])
       (use assms(2) in simp, erule step, assumption)
qed

lemma scheduledFieldCallback_changed_field:
  assumes "scheduledFieldCallback e n fin fv m (fs, w) = Inr (fs', w')"
  shows "map_of fs' n = map_of fs n"
proof (cases "m = n")
  case True
  with assms show ?thesis by (simp add: scheduledFieldCallback_def)
next
  case False
  with assms have "fs' = fs \<or> (\<exists>f. fs' = AList.update m f fs)"
    by (simp add: scheduledFieldCallback_def split: option.splits if_splits sum.splits prod.splits)
       blast
  with False show ?thesis by auto
qed

lemma triggerScheduledFieldsValidations_changed_field:
  assumes "triggerScheduledFieldsValidations e n fin (fs, w) = Inr (fs', w')"
  shows "map_of fs' n = map_of fs n"
proof -
  let ?P = "\<lambda>t. map_of (fst t) n = map_of fs n"
  from assms have loop: "forEachFormField (map fst fs)
      (scheduledFieldCallback e n fin (getFormValues e fs (metas w))) (fs, w) = Inr (fs', w')"
    by (simp add: triggerScheduledFieldsValidations_def Let_def)
  have "?P (fs', w')"
  proof (rule forEachFormField_invariant [where P = ?P, OF loop])
    show "?P (fs, w)" by simp
  next
    fix m t t'
    assume "?P t" and "scheduledFieldCallback e n fin (getFormValues e fs (metas w)) m t = Inr t'"
    then show "?P t'"
      using scheduledFieldCallback_changed_field [of e n fin _ m "fst t" "snd t" "fst t'" "snd t'"]
      by simp
  qed
  then show ?thesis by simp
qed

subsection \<open>Leading white space\<close>

lemma trimStart_no_leading_whitespace: "trimStart s = c # cs \<Longrightarrow> \<not> isWhiteSpace c"
  unfolding trimStart_def by (simp add: dropWhile_eq_Cons_conv)

lemma isWhiteSpace_space [simp]: "isWhiteSpace CHR '' ''"
  by (simp add: isWhiteSpace_def)

lemma trimStart_spaces: "\<forall>c \<in> set s. c = CHR '' '' \<Longrightarrow> trimStart s = []"
  unfolding trimStart_def by (induction s) simp_all

subsection \<open>Form validation\<close>





lemma map_of_map_filter:
  "map_of (map (\<lambda>(n, f). (n, g f)) (filter (\<lambda>(n, f). P n) fs)) m
     = (if P m then map_option g (map_of fs m) else None)"
  by (induction fs) auto



subsection \<open>Scheduled validations\<close>

lemma worldGrows_iff:
  "worldGrows w w' \<longleftrightarrow>
     (\<exists>evs. trace w' = trace w @ evs
        \<and> (\<forall>m. isValidationScheduled (metas w' m)
               \<longrightarrow> isValidationScheduled (metas w m) \<or> Scheduled m \<in> set evs))
     \<and> (\<forall>m. childForms (metas w' m) = childForms (metas w m))"
proof -
  have "take (length (trace w)) (trace w') = trace w
          \<longleftrightarrow> trace w' = trace w @ drop (length (trace w)) (trace w')"
    by (metis append_eq_conv_conj)
  moreover have "trace w' = trace w @ evs \<Longrightarrow> evs = drop (length (trace w)) (trace w')" for evs
    by simp
  ultimately show ?thesis
    unfolding worldGrows_def newEffects_def by metis
qed

lemma worldGrows_refl [simp]: "worldGrows w w"
  by (simp add: worldGrows_def newEffects_def)

lemma worldGrows_trans:
  assumes "worldGrows w1 w2" and "worldGrows w2 w3"
  shows "worldGrows w1 w3"
proof -
  from assms(1) obtain e1 where 1: "trace w2 = trace w1 @ e1"
    and f1: "\<forall>m. isValidationScheduled (metas w2 m)
               \<longrightarrow> isValidationScheduled (metas w1 m) \<or> Scheduled m \<in> set e1"
    and c1: "\<forall>m. childForms (metas w2 m) = childForms (metas w1 m)"
    unfolding worldGrows_iff by blast
  from assms(2) obtain e2 where 2: "trace w3 = trace w2 @ e2"
    and f2: "\<forall>m. isValidationScheduled (metas w3 m)
               \<longrightarrow> isValidationScheduled (metas w2 m) \<or> Scheduled m \<in> set e2"
    and c2: "\<forall>m. childForms (metas w3 m) = childForms (metas w2 m)"
    unfolding worldGrows_iff by blast
  have "trace w3 = trace w1 @ (e1 @ e2)" using 1 2 by simp
  moreover have "\<forall>m. isValidationScheduled (metas w3 m)
               \<longrightarrow> isValidationScheduled (metas w1 m) \<or> Scheduled m \<in> set (e1 @ e2)"
    using f1 f2 by auto
  moreover have "\<forall>m. childForms (metas w3 m) = childForms (metas w1 m)"
    using c1 c2 by simp
  ultimately show ?thesis unfolding worldGrows_iff by blast
qed

lemma worldGrows_clear [simp]: "worldGrows w (clearValidationScheduled m w)"
  unfolding worldGrows_def clearValidationScheduled_def newEffects_def by simp

lemma executeFieldValidator_world:
  assumes "executeFieldValidator e fs w n v fin = Inr (f', w')"
  shows "worldGrows w w'
       \<and> (\<forall>m. isValidationScheduled (metas w m) \<longrightarrow> isValidationScheduled (metas w' m))"
proof -
  from assms obtain f where f: "map_of fs n = Some f"
    by (auto simp: executeFieldValidator_def split: option.splits)
  obtain vr w1 where tv:
    "executeFieldTypeValidator e fs w f (sanitizeFieldValue e (ftype (config f)) v) = (vr, w1)"
    by (cases "executeFieldTypeValidator e fs w f (sanitizeFieldValue e (ftype (config f)) v)")
  from executeFieldTypeValidator_trace [OF tv] obtain ns where w1: "w1 = scheduleValidations ns w"
    by blast
  from assms show ?thesis
    unfolding executeFieldValidator_unfold [OF f tv] Let_def worldGrows_def newEffects_def w1
    by (auto split: if_splits option.splits prod.splits validator_response.splits)
qed

lemma forEachFormField_append:
  "forEachFormField (xs @ ys) cb s =
     (case forEachFormField xs cb s of Inl err \<Rightarrow> Inl err | Inr t \<Rightarrow> forEachFormField ys cb t)"
  by (induction xs arbitrary: s) (auto split: sum.splits)

lemma forEachFormField_split:
  assumes "forEachFormField ns cb s = Inr s'" and "m \<in> set ns"
  shows "\<exists>pre post s1 s2. ns = pre @ m # post
           \<and> forEachFormField pre cb s = Inr s1 \<and> cb m s1 = Inr s2
           \<and> forEachFormField post cb s2 = Inr s'"
proof -
  from assms(2) obtain pre post where ns: "ns = pre @ m # post"
    by (auto simp: in_set_conv_decomp)
  from assms(1) obtain s1 where s1: "forEachFormField pre cb s = Inr s1"
    and r1: "forEachFormField (m # post) cb s1 = Inr s'"
    unfolding ns forEachFormField_append by (auto split: sum.splits)
  from r1 obtain s2 where "cb m s1 = Inr s2" and "forEachFormField post cb s2 = Inr s'"
    by (auto split: sum.splits)
  with ns s1 show ?thesis by blast
qed

lemma forEachFormField_invariant_in:
  assumes "forEachFormField ns cb s = Inr s'"
    and "P s"
    and "\<And>n t t'. n \<in> set ns \<Longrightarrow> P t \<Longrightarrow> cb n t = Inr t' \<Longrightarrow> P t'"
  shows "P s'"
  using assms
proof (induction ns arbitrary: s)
  case Nil
  then show ?case by simp
next
  case (Cons n ns)
  from Cons.prems(1) obtain t where t: "cb n s = Inr t" and rest: "forEachFormField ns cb t = Inr s'"
    by (simp split: sum.splits)
  have "P t" by (rule Cons.prems(3) [OF _ Cons.prems(2) t]) simp
  show ?case
    by (rule Cons.IH [OF rest \<open>P t\<close>]) (rule Cons.prems(3), auto)
qed

lemma map_fst_update_present:
  "map_of al k = Some x \<Longrightarrow> map fst (AList.update k v al) = map fst al"
  by (induction al) (auto split: if_splits)

lemma scheduledFieldCallback_cases:
  assumes "scheduledFieldCallback e n fin fv k (fs, w) = Inr (fs', w')"
  shows "(k = n \<and> fs' = fs \<and> w' = w)
       \<or> (k \<noteq> n \<and> (\<exists>g. map_of fs k = Some g
             \<and> ((\<not> isValidationScheduled (metas w k) \<and> fs' = fs \<and> w' = w)
                \<or> (isValidationScheduled (metas w k) \<and> checkIsSkipField e k fv fs
                      \<and> fs' = fs \<and> w' = clearValidationScheduled k w)
                \<or> (isValidationScheduled (metas w k) \<and> \<not> checkIsSkipField e k fv fs
                      \<and> (\<exists>v f' w0. scheduledFieldValue g (metas w k) = Inr v
                            \<and> executeFieldValidator e fs w k v fin = Inr (f', w0)
                            \<and> fs' = AList.update k f' fs
                            \<and> w' = clearValidationScheduled k w0)))))"
proof (cases "k = n")
  case True
  with assms show ?thesis by (simp add: scheduledFieldCallback_def)
next
  case False
  with assms obtain g where g: "map_of fs k = Some g"
    by (auto simp: scheduledFieldCallback_def split: option.splits)
  show ?thesis
  proof (cases "isValidationScheduled (metas w k)")
    case unflagged: False
    with assms False g show ?thesis by (simp add: scheduledFieldCallback_def)
  next
    case flagged: True
    show ?thesis
    proof (cases "checkIsSkipField e k fv fs")
      case True
      with assms False g flagged show ?thesis by (simp add: scheduledFieldCallback_def)
    next
      case noskip: False
      with assms False g flagged obtain v where v: "scheduledFieldValue g (metas w k) = Inr v"
        by (auto simp: scheduledFieldCallback_def split: sum.splits)
      with assms False g flagged noskip obtain f' w0 where
        "executeFieldValidator e fs w k v fin = Inr (f', w0)"
        "fs' = AList.update k f' fs" "w' = clearValidationScheduled k w0"
        by (auto simp: scheduledFieldCallback_def split: sum.splits)
      with False g flagged noskip v show ?thesis by blast
    qed
  qed
qed

lemma scheduledFieldCallback_elim [consumes 1, case_names changed unflagged skipped validated]:
  assumes "scheduledFieldCallback e n fin fv k (fs, w) = Inr (fs', w')"
  obtains "k = n" and "fs' = fs" and "w' = w"
  | g where "k \<noteq> n" and "map_of fs k = Some g" and "\<not> isValidationScheduled (metas w k)"
      and "fs' = fs" and "w' = w"
  | g where "k \<noteq> n" and "map_of fs k = Some g" and "isValidationScheduled (metas w k)"
      and "checkIsSkipField e k fv fs" and "fs' = fs" and "w' = clearValidationScheduled k w"
  | g v f' w0 where "k \<noteq> n" and "map_of fs k = Some g"
      and "isValidationScheduled (metas w k)" and "\<not> checkIsSkipField e k fv fs"
      and "scheduledFieldValue g (metas w k) = Inr v"
      and "executeFieldValidator e fs w k v fin = Inr (f', w0)"
      and "fs' = AList.update k f' fs" and "w' = clearValidationScheduled k w0"
  using scheduledFieldCallback_cases [OF assms] by blast

lemma scheduledFieldCallback_frame:
  assumes "scheduledFieldCallback e n fin fv k (fs, w) = Inr (fs', w')"
  shows "map fst fs' = map fst fs"
    and "x \<noteq> k \<Longrightarrow> map_of fs' x = map_of fs x"
    and "worldGrows w w'"
    and "x \<noteq> k \<Longrightarrow> isValidationScheduled (metas w x) \<Longrightarrow> isValidationScheduled (metas w' x)"
    and "k \<noteq> n \<Longrightarrow> \<not> isValidationScheduled (metas w' k)"
proof -
  show "map fst fs' = map fst fs"
    using assms by (cases rule: scheduledFieldCallback_elim) (simp_all add: map_fst_update_present)
  show "x \<noteq> k \<Longrightarrow> map_of fs' x = map_of fs x"
    using assms by (cases rule: scheduledFieldCallback_elim) simp_all
  show "worldGrows w w'"
    using assms
  proof (cases rule: scheduledFieldCallback_elim)
    case (validated g v f' w0)
    from executeFieldValidator_world [OF validated(6)] have "worldGrows w w0" by simp
    from worldGrows_trans [OF this worldGrows_clear] validated(8) show ?thesis by simp
  qed simp_all
  show "isValidationScheduled (metas w' x)"
    if "x \<noteq> k" and "isValidationScheduled (metas w x)"
    using assms
  proof (cases rule: scheduledFieldCallback_elim)
    case (validated g v f' w0)
    from executeFieldValidator_world [OF validated(6)] that(2)
    have "isValidationScheduled (metas w0 x)" by simp
    with validated(8) that(1) show ?thesis by (simp add: clearValidationScheduled_def)
  qed (use that in \<open>simp_all add: clearValidationScheduled_def\<close>)
  show "k \<noteq> n \<Longrightarrow> \<not> isValidationScheduled (metas w' k)"
    using assms
    by (cases rule: scheduledFieldCallback_elim) (simp_all add: clearValidationScheduled_def)
qed

lemma newEffects_mono:
  assumes "worldGrows w a" and "worldGrows a b"
  shows "set (newEffects a b) \<subseteq> set (newEffects w b)"
proof -
  from assms(1) obtain e1 where 1: "trace a = trace w @ e1"
    unfolding worldGrows_iff by blast
  from assms(2) obtain e2 where 2: "trace b = trace a @ e2"
    unfolding worldGrows_iff by blast
  from 1 2 show ?thesis by (simp add: newEffects_def)
qed

lemma getChildFormsValues_cong:
  "childForms m1 = childForms m2 \<Longrightarrow> getChildFormsValues g m1 = getChildFormsValues g m2"
  by (simp add: getChildFormsValues_def)

lemma scheduledFieldValue_cong:
  "childForms m1 = childForms m2 \<Longrightarrow> scheduledFieldValue g m1 = scheduledFieldValue g m2"
  using getChildFormsValues_cong [of m1 m2 g]
  by (simp add: scheduledFieldValue_def split: option.splits)

lemma scheduled_loop_other:
  assumes "forEachFormField ns (scheduledFieldCallback e n fin fv) (fs, w) = Inr (fs', w')"
    and "m \<notin> set ns"
  shows "map fst fs' = map fst fs \<and> map_of fs' m = map_of fs m \<and> worldGrows w w'
       \<and> (isValidationScheduled (metas w m) \<longrightarrow> isValidationScheduled (metas w' m))"
proof -
  let ?P = "\<lambda>t. map fst (fst t) = map fst fs \<and> map_of (fst t) m = map_of fs m
              \<and> worldGrows w (snd t)
              \<and> (isValidationScheduled (metas w m) \<longrightarrow> isValidationScheduled (metas (snd t) m))"
  have "?P (fs', w')"
  proof (rule forEachFormField_invariant_in [where P = ?P, OF assms(1)])
    show "?P (fs, w)" by simp
  next
    fix k t t'
    assume k: "k \<in> set ns" and P: "?P t"
      and c: "scheduledFieldCallback e n fin fv k t = Inr t'"
    from k assms(2) have mk: "m \<noteq> k" by auto
    from c have c': "scheduledFieldCallback e n fin fv k (fst t, snd t) = Inr (fst t', snd t')"
      by simp
    note fr = scheduledFieldCallback_frame [OF c']
    from fr(1) P have "map fst (fst t') = map fst fs" by simp
    moreover from fr(2) [OF mk] P have "map_of (fst t') m = map_of fs m" by simp
    moreover from worldGrows_trans [OF _ fr(3)] P have "worldGrows w (snd t')" by blast
    moreover from fr(4) [OF mk] P
    have "isValidationScheduled (metas w m) \<longrightarrow> isValidationScheduled (metas (snd t') m)"
      by blast
    ultimately show "?P t'" by blast
  qed
  then show ?thesis by simp
qed

lemma scheduled_loop_at:
  assumes "forEachFormField ns (scheduledFieldCallback e n fin fv) (fs, w) = Inr (fs', w')"
    and "distinct ns" and "m \<in> set ns" and "m \<noteq> n"
  shows "\<exists>fs1 w1 fs2 w2.
           map fst fs1 = map fst fs \<and> map_of fs1 m = map_of fs m \<and> worldGrows w w1
           \<and> (isValidationScheduled (metas w m) \<longrightarrow> isValidationScheduled (metas w1 m))
           \<and> scheduledFieldCallback e n fin fv m (fs1, w1) = Inr (fs2, w2)
           \<and> map_of fs' m = map_of fs2 m \<and> worldGrows w2 w'"
proof -
  from forEachFormField_split [OF assms(1,3)] obtain pre post s1 s2 where
    ns: "ns = pre @ m # post"
    and pre: "forEachFormField pre (scheduledFieldCallback e n fin fv) (fs, w) = Inr s1"
    and at: "scheduledFieldCallback e n fin fv m s1 = Inr s2"
    and post: "forEachFormField post (scheduledFieldCallback e n fin fv) s2 = Inr (fs', w')"
    by blast
  obtain fs1 w1 where s1: "s1 = (fs1, w1)" by (cases s1)
  obtain fs2 w2 where s2: "s2 = (fs2, w2)" by (cases s2)
  from assms(2) ns have mpre: "m \<notin> set pre" and mpost: "m \<notin> set post" by auto
  note a = scheduled_loop_other [OF pre [unfolded s1] mpre]
  note b = scheduled_loop_other [OF post [unfolded s2] mpost]
  from a b at s1 s2 show ?thesis by blast
qed

text \<open>
  C9, as the claim states it, fails: the validator of \<open>period\<close> schedules \<open>from\<close> and
  \<open>to\<close>; the rescan re-validates \<open>from\<close> and clears its flag, then re-validates \<open>to\<close>,
  whose validator schedules \<open>from\<close> again. After the rescan the flag of the scanned field
  \<open>from\<close> is set.
\<close>

theorem C9_rescheduled_flag_counterexample:
  "map_option (map_sum id (\<lambda>(fs', w'). isValidationScheduled (metas w' ''from'')))
     (getNextFieldsState 0 plainEnv ''period'' (JStr ''week'') periodFields True True True
        plainWorld)
   = Some (Inr True)"
  by (simp add: getNextFieldsState_def resetDependentFields_def isDependentOn_def
      processSkippableFields_def triggerScheduledFieldsValidations_def
      scheduledFieldCallback_def clearValidationScheduled_def scheduleFieldValidation_def
      periodFields_def schedulingConfig_def trimStartIfString_def trimStart_def
      isWhiteSpace_def evaluation_defs)

text \<open>
  C9, amended. In the rescan after the primary field's transition, every field whose
  \<open>isValidationScheduled\<close> flag is set, except the field that just changed, is handled in
  key order, at a moment when it is still as it was before the rescan: a skip-eligible
  field is left as it is, and any other is re-validated synchronously by
  \<open>executeFieldValidator\<close> with its current raw value passed through its filter (for a
  nested-forms field: with its child forms' values). The flag of a scanned field is cleared
  at the end of its own step whatever the outcome, so after the rescan the flag of a field
  other than the changed one is set only if a validator scheduled that field during the
  rescan.
\<close>

theorem C9_scheduled_rescan:
  assumes "triggerScheduledFieldsValidations e n fin (fs, w) = Inr (fs', w')"
    and "distinct (map fst fs)"
  shows "(\<forall>m g. map_of fs m = Some g \<and> m \<noteq> n \<and> isValidationScheduled (metas w m) \<longrightarrow>
            (\<exists>fs1 w1. map fst fs1 = map fst fs \<and> map_of fs1 m = Some g
               \<and> (if checkIsSkipField e m (getFormValues e fs (metas w)) fs1
                   then map_of fs' m = Some g
                   else (\<exists>v f' w0. scheduledFieldValue g (metas w m) = Inr v
                           \<and> executeFieldValidator e fs1 w1 m v fin = Inr (f', w0)
                           \<and> map_of fs' m = Some f'))))
       \<and> (\<forall>m \<in> set (map fst fs). m \<noteq> n \<longrightarrow> isValidationScheduled (metas w' m)
            \<longrightarrow> Scheduled m \<in> set (newEffects w w'))"
proof -
  let ?fv = "getFormValues e fs (metas w)"
  from assms(1) have loop:
    "forEachFormField (map fst fs) (scheduledFieldCallback e n fin ?fv) (fs, w) = Inr (fs', w')"
    by (simp add: triggerScheduledFieldsValidations_def Let_def)
  have revalidated:
    "\<exists>fs1 w1. map fst fs1 = map fst fs \<and> map_of fs1 m = Some g
       \<and> (if checkIsSkipField e m ?fv fs1 then map_of fs' m = Some g
           else (\<exists>v f' w0. scheduledFieldValue g (metas w m) = Inr v
                   \<and> executeFieldValidator e fs1 w1 m v fin = Inr (f', w0)
                   \<and> map_of fs' m = Some f'))"
    if g: "map_of fs m = Some g" and mn: "m \<noteq> n" and fl: "isValidationScheduled (metas w m)"
    for m g
  proof -
    from g have "m \<in> set (map fst fs)" by (metis map_of_eq_None_iff option.distinct(1) set_map)
    from scheduled_loop_at [OF loop assms(2) this mn] obtain fs1 w1 fs2 w2 where
      keys: "map fst fs1 = map fst fs" and same: "map_of fs1 m = map_of fs m"
      and grow: "worldGrows w w1"
      and fl1: "isValidationScheduled (metas w m) \<longrightarrow> isValidationScheduled (metas w1 m)"
      and at: "scheduledFieldCallback e n fin ?fv m (fs1, w1) = Inr (fs2, w2)"
      and fin: "map_of fs' m = map_of fs2 m"
      by blast
    from grow have cf: "childForms (metas w1 m) = childForms (metas w m)"
      by (simp add: worldGrows_def)
    from at show ?thesis
    proof (cases rule: scheduledFieldCallback_elim)
      case changed
      with mn show ?thesis by simp
    next
      case (unflagged g')
      with fl fl1 show ?thesis by simp
    next
      case (skipped g')
      with same g fin keys show ?thesis by auto
    next
      case (validated g' v f' w0)
      from validated(2) same g have "g' = g" by simp
      with validated(5) scheduledFieldValue_cong [OF cf, of g]
      have "scheduledFieldValue g (metas w m) = Inr v" by simp
      moreover from validated(7) fin have "map_of fs' m = Some f'" by simp
      ultimately show ?thesis
        using validated(4,6) keys same g by auto
    qed
  qed
  have flags: "Scheduled m \<in> set (newEffects w w')"
    if "m \<in> set (map fst fs)" and mn: "m \<noteq> n" and fl: "isValidationScheduled (metas w' m)"
    for m
  proof -
    from scheduled_loop_at [OF loop assms(2) that(1) mn] obtain fs1 w1 fs2 w2 where
      grow: "worldGrows w w1"
      and at: "scheduledFieldCallback e n fin ?fv m (fs1, w1) = Inr (fs2, w2)"
      and post: "worldGrows w2 w'"
      by blast
    note fr = scheduledFieldCallback_frame [OF at]
    from fr(5) [OF mn] have "\<not> isValidationScheduled (metas w2 m)" .
    with post fl have "Scheduled m \<in> set (newEffects w2 w')"
      by (auto simp: worldGrows_def)
    with newEffects_mono [OF worldGrows_trans [OF grow fr(3)] post] show ?thesis by blast
  qed
  from revalidated flags show ?thesis by blast
qed

theorem C9_scheduled_rescan_witness:
  "\<exists>fs' w'. triggerScheduledFieldsValidations plainEnv ''period'' True (periodFields, periodWorld)
              = Inr (fs', w')
     \<and> \<not> isValidationScheduled (metas w' ''to'')
     \<and> isValidationScheduled (metas w' ''from'')
     \<and> Scheduled ''from'' \<in> set (newEffects periodWorld w')"
proof -
  have "\<exists>fs' w'. triggerScheduledFieldsValidations plainEnv ''period'' True
                   (periodFields, periodWorld) = Inr (fs', w')
          \<and> \<not> isValidationScheduled (metas w' ''to'')
          \<and> isValidationScheduled (metas w' ''from'')"
    by (simp add: triggerScheduledFieldsValidations_def scheduledFieldCallback_def
        clearValidationScheduled_def scheduleFieldValidation_def periodFields_def
        periodWorld_def schedulingConfig_def evaluation_defs)
  then obtain fs' w' where
    r: "triggerScheduledFieldsValidations plainEnv ''period'' True (periodFields, periodWorld)
          = Inr (fs', w')"
    and t: "\<not> isValidationScheduled (metas w' ''to'')"
    and f: "isValidationScheduled (metas w' ''from'')"
    by blast
  have d: "distinct (map fst periodFields)" by (simp add: periodFields_def)
  have k: "''from'' \<in> set (map fst periodFields)" by (simp add: periodFields_def)
  from C9_scheduled_rescan [OF r d] k f
  have "Scheduled ''from'' \<in> set (newEffects periodWorld w')" by auto
  with r t f show ?thesis by blast
qed

subsection \<open>The reset pass\<close>

lemma configOf_update:
  assumes "map_of fs k = Some f" and "config f' = config f"
  shows "configOf (AList.update k f' fs) = configOf fs"
  using assms by (auto simp: configOf_def fun_eq_iff AList.update_conv')

lemma configOf_keys: "configOf fs x \<noteq> None \<longleftrightarrow> x \<in> set (map fst fs)"
  by (simp add: configOf_def map_of_eq_None_iff)

lemma cleared_getNextResetField [simp]: "cleared (getNextResetField g False)"
  by (simp add: cleared_def)

lemma isDependentOn_cases:
  "isDependentOn e ms fs g t i
     \<Longrightarrow> declaresDependency (config g) t \<or> predicateMayHold (config g) i"
  by (auto simp: isDependentOn_def declaresDependency_def predicateMayHold_def
      split: option.splits depends_on.splits)

lemma declaresDependency_isDependentOn:
  "declaresDependency (config g) t \<Longrightarrow> isDependentOn e ms fs g t i"
  by (auto simp: isDependentOn_def declaresDependency_def
      split: option.splits depends_on.splits)

text \<open>A scan of a list of names is the scan of a first part followed by the scan of the
  rest.\<close>

lemma resetDependentFields_scan_append:
  "resetDependentFields_scan k e ms t i (pre @ post) fs =
     (case resetDependentFields_scan k e ms t i pre fs of
        None \<Rightarrow> None
      | Some (Inl err) \<Rightarrow> Some (Inl err)
      | Some (Inr fs1) \<Rightarrow> resetDependentFields_scan k e ms t i post fs1)"
  by (induction pre arbitrary: fs)
    (auto simp: Let_def split: option.splits nat.splits sum.splits)

text \<open>A scan keeps the configurations and the names, and a field that it changes is
  cleared.\<close>

lemma resetDependentFields_scan_frame:
  "resetDependentFields_scan k e ms t i names fs1 = Some (Inr fs2)
     \<Longrightarrow> configOf fs2 = configOf fs1 \<and> map fst fs2 = map fst fs1
       \<and> (\<forall>y. map_of fs2 y = map_of fs1 y \<or> clearedAt fs2 y)"
proof (induction k arbitrary: t i names fs1 fs2 rule: less_induct)
  case (less k)
  note outer = less.IH
  from less.prems show ?case
  proof (induction names arbitrary: fs1)
    case Nil
    then show ?case by simp
  next
    case (Cons x rest)
    show ?case
    proof (cases "x = t")
      case True
      with Cons.prems have "resetDependentFields_scan k e ms t i rest fs1 = Some (Inr fs2)"
        by simp
      from Cons.IH [OF this] show ?thesis by auto
    next
      case xt: False
      with Cons.prems obtain g where g: "map_of fs1 x = Some g"
        by (auto split: option.splits)
      show ?thesis
      proof (cases "isDependentOn e ms fs1 g t i")
        case False
        with Cons.prems xt g
        have "resetDependentFields_scan k e ms t i rest fs1 = Some (Inr fs2)" by simp
        from Cons.IH [OF this] show ?thesis by auto
      next
        case dep: True
        let ?fs1' = "AList.update x (getNextResetField g False) fs1"
        have cf1': "configOf ?fs1' = configOf fs1"
          using configOf_update [OF g, of "getNextResetField g False"] by simp
        have keys1': "map fst ?fs1' = map fst fs1"
          using map_fst_update_present [OF g] by simp
        have x1': "clearedAt ?fs1' x" by (simp add: clearedAt_def)
        have fr1: "map_of ?fs1' y = map_of fs1 y \<or> clearedAt ?fs1' y" for y
          using x1' by (cases "y = x") simp_all
        obtain fsm where
          mid: "configOf fsm = configOf fs1" "map fst fsm = map fst fs1"
            "\<forall>y. map_of fsm y = map_of fs1 y \<or> clearedAt fsm y"
          and r3: "resetDependentFields_scan k e ms t i rest fsm = Some (Inr fs2)"
        proof (cases "x = i")
          case True
          with Cons.prems xt g dep
          have "resetDependentFields_scan k e ms t i rest ?fs1' = Some (Inr fs2)"
            by (simp add: Let_def)
          with cf1' keys1' fr1 that show ?thesis by blast
        next
          case False
          with Cons.prems xt g dep obtain k' fsn where k: "k = Suc k'"
            and r2: "resetDependentFields_scan k' e ms x (initiatorOr (Some t) x)
                       (map fst ?fs1') ?fs1' = Some (Inr fsn)"
            and r3: "resetDependentFields_scan k e ms t i rest fsn = Some (Inr fs2)"
            by (auto simp: Let_def split: nat.splits option.splits sum.splits)
          have "k' < k" using k by simp
          from outer [OF this r2] have cfn: "configOf fsn = configOf ?fs1'"
            and keysn: "map fst fsn = map fst ?fs1'"
            and frn: "\<forall>y. map_of fsn y = map_of ?fs1' y \<or> clearedAt fsn y"
            by blast+
          have "map_of fsn y = map_of fs1 y \<or> clearedAt fsn y" for y
          proof -
            from frn have "map_of fsn y = map_of ?fs1' y \<or> clearedAt fsn y" by blast
            with fr1 [of y] show ?thesis by (auto simp: clearedAt_def)
          qed
          then show ?thesis using that cfn cf1' keysn keys1' r3 by auto
        qed
        from Cons.IH [OF r3] have cf2: "configOf fs2 = configOf fsm"
          and keys2: "map fst fs2 = map fst fsm"
          and fr2: "\<forall>y. map_of fs2 y = map_of fsm y \<or> clearedAt fs2 y"
          by blast+
        have frame: "map_of fs2 y = map_of fs1 y \<or> clearedAt fs2 y" for y
        proof -
          from fr2 have "map_of fs2 y = map_of fsm y \<or> clearedAt fs2 y" by blast
          moreover from mid(3) have "map_of fsm y = map_of fs1 y \<or> clearedAt fsm y" by blast
          ultimately show ?thesis by (auto simp: clearedAt_def)
        qed
        from cf2 keys2 mid(1,2) frame show ?thesis by auto
      qed
    qed
  qed
qed

lemma resetDependentFields_scan_keeps_cleared:
  assumes "resetDependentFields_scan k e ms t i names fs1 = Some (Inr fs2)"
    and "clearedAt fs1 y"
  shows "clearedAt fs2 y"
proof -
  from resetDependentFields_scan_frame [OF assms(1)]
  have "map_of fs2 y = map_of fs1 y \<or> clearedAt fs2 y" by blast
  with assms(2) show ?thesis by (auto simp: clearedAt_def)
qed

subsection \<open>Chains of declared dependencies\<close>

lemma dependsChainAvoiding_mono:
  assumes "dependsChainAvoiding cf S x z" and "S' \<subseteq> S"
  shows "dependsChainAvoiding cf S' x z"
  using assms
proof (induction rule: dependsChainAvoiding.induct)
  case avoiding_refl
  show ?case by (rule dependsChainAvoiding.avoiding_refl)
next
  case (avoiding_step y z c)
  from avoiding_step.hyps(2) avoiding_step.prems have "y \<notin> S'" by blast
  with avoiding_step.IH [OF avoiding_step.prems] avoiding_step.hyps(3,4,5)
  show ?case by (blast intro: dependsChainAvoiding.avoiding_step)
qed

lemma dependsChainAvoiding_start:
  assumes "dependsChainAvoiding cf S x z" and "x \<in> S"
  shows "z = x"
  using assms by (induction rule: dependsChainAvoiding.induct) auto

lemma dependsChainAvoiding_first:
  assumes "dependsChainAvoiding cf S x z"
  shows "z = x \<or> (\<exists>y c. cf y = Some c \<and> y \<noteq> x \<and> declaresDependency c x
                   \<and> dependsChainAvoiding cf (insert x S) y z)"
  using assms
proof (induction rule: dependsChainAvoiding.induct)
  case avoiding_refl
  then show ?case by simp
next
  case (avoiding_step y z c)
  have restart: ?case if "y = x"
    using that avoiding_step.hyps(3,4,5)
      dependsChainAvoiding.avoiding_refl [of cf "insert x S" z] by blast
  show ?case
  proof (cases "y = x")
    case True
    then show ?thesis by (rule restart)
  next
    case False
    with avoiding_step.IH obtain y' c' where y': "cf y' = Some c'" "y' \<noteq> x"
      "declaresDependency c' x" and ch: "dependsChainAvoiding cf (insert x S) y' y"
      by blast
    from False avoiding_step.hyps(2) have "y \<notin> insert x S" by simp
    with ch avoiding_step.hyps(3,4,5)
    have "dependsChainAvoiding cf (insert x S) y' z"
      by (blast intro: dependsChainAvoiding.avoiding_step)
    with y' show ?thesis by blast
  qed
qed

lemma dependsChain_avoiding:
  assumes "dependsChain cf x z"
  shows "dependsChainAvoiding cf {a} x z
       \<or> (\<exists>w c. cf w = Some c \<and> w \<noteq> a \<and> declaresDependency c a
              \<and> dependsChainAvoiding cf {a} w z)"
  using assms
proof (induction rule: dependsChain.induct)
  case chain_refl
  show ?case using dependsChainAvoiding.avoiding_refl [of cf "{a}" x] by blast
next
  case (chain_step y z c)
  show ?case
  proof (cases "y = a")
    case True
    with chain_step.hyps(2,3,4) dependsChainAvoiding.avoiding_refl [of cf "{a}" z]
    show ?thesis by blast
  next
    case False
    then have ya: "y \<notin> {a}" by simp
    from chain_step.IH show ?thesis
    proof
      assume "dependsChainAvoiding cf {a} x y"
      from this ya chain_step.hyps(2,3,4) have "dependsChainAvoiding cf {a} x z"
        by (blast intro: dependsChainAvoiding.avoiding_step)
      then show ?thesis by blast
    next
      assume "\<exists>w c. cf w = Some c \<and> w \<noteq> a \<and> declaresDependency c a
                \<and> dependsChainAvoiding cf {a} w y"
      then obtain w c' where w: "cf w = Some c'" "w \<noteq> a" "declaresDependency c' a"
        and ch: "dependsChainAvoiding cf {a} w y" by blast
      from ch ya chain_step.hyps(2,3,4) have "dependsChainAvoiding cf {a} w z"
        by (blast intro: dependsChainAvoiding.avoiding_step)
      with w show ?thesis by blast
    qed
  qed
qed

lemma initiatorOr_cases: "initiatorOr (Some t) x = t \<or> initiatorOr (Some t) x = x"
  by (simp add: initiatorOr_def)

text \<open>
  What a completed scan has done for a name \<open>x\<close> of its list: when the scan reached
  \<open>x\<close> and found it dependent, \<open>x\<close> is cleared at the end, and, unless \<open>x\<close> is the
  initiator, so is every field reached from \<open>x\<close> through declared dependencies (on the way,
  the initiator of the nested scan is passed only when it is \<open>x\<close> itself).
\<close>

lemma resetDependentFields_scan_chain:
  assumes "resetDependentFields_scan k e ms t i (pre @ x # post) fs1 = Some (Inr fs2)"
    and "x \<noteq> t"
  shows "\<exists>fsx g. resetDependentFields_scan k e ms t i pre fs1 = Some (Inr fsx)
           \<and> map_of fsx x = Some g
           \<and> (isDependentOn e ms fsx g t i \<longrightarrow>
                clearedAt fs2 x
                \<and> (x \<noteq> i \<longrightarrow>
                     (\<forall>z. dependsChainAvoiding (configOf fs1)
                            ({initiatorOr (Some t) x} - {x}) x z
                          \<longrightarrow> clearedAt fs2 z)))"
  using assms
proof (induction k arbitrary: t i pre x post fs1 fs2 rule: less_induct)
  case (less k)
  note outer = less.IH
  from less.prems(1) obtain fsx where
    pre: "resetDependentFields_scan k e ms t i pre fs1 = Some (Inr fsx)"
    and rest: "resetDependentFields_scan k e ms t i (x # post) fsx = Some (Inr fs2)"
    by (auto simp: resetDependentFields_scan_append split: option.splits sum.splits)
  from rest less.prems(2) obtain g where g: "map_of fsx x = Some g"
    by (auto split: option.splits)
  from resetDependentFields_scan_frame [OF pre]
  have cfx: "configOf fsx = configOf fs1" by simp
  have main: "clearedAt fs2 x
                \<and> (x \<noteq> i \<longrightarrow>
                     (\<forall>z. dependsChainAvoiding (configOf fs1)
                            ({initiatorOr (Some t) x} - {x}) x z
                          \<longrightarrow> clearedAt fs2 z))"
    if dep: "isDependentOn e ms fsx g t i"
  proof -
    let ?fsa = "AList.update x (getNextResetField g False) fsx"
    let ?ix = "initiatorOr (Some t) x"
    have xa: "clearedAt ?fsa x" by (simp add: clearedAt_def)
    have cfa: "configOf ?fsa = configOf fs1"
      using configOf_update [OF g, of "getNextResetField g False"] cfx by simp
    show ?thesis
    proof (cases "x = i")
      case True
      with rest less.prems(2) g dep
      have "resetDependentFields_scan k e ms t i post ?fsa = Some (Inr fs2)"
        by (simp add: Let_def)
      from resetDependentFields_scan_keeps_cleared [OF this xa] True show ?thesis by simp
    next
      case xi: False
      with rest less.prems(2) g dep obtain k' fsb where k: "k = Suc k'"
        and nested: "resetDependentFields_scan k' e ms x ?ix (map fst ?fsa) ?fsa = Some (Inr fsb)"
        and after: "resetDependentFields_scan k e ms t i post fsb = Some (Inr fs2)"
        by (auto simp: Let_def split: nat.splits option.splits sum.splits)
      have k'k: "k' < k" using k by simp
      have xb: "clearedAt fsb x"
        by (rule resetDependentFields_scan_keeps_cleared [OF nested xa])
      have x2: "clearedAt fs2 x"
        by (rule resetDependentFields_scan_keeps_cleared [OF after xb])
      have chain: "clearedAt fs2 z"
        if ch: "dependsChainAvoiding (configOf fs1) ({?ix} - {x}) x z" for z
      proof -
        from dependsChainAvoiding_first [OF ch] show ?thesis
        proof
          assume "z = x"
          with x2 show ?thesis by simp
        next
          assume "\<exists>y c. configOf fs1 y = Some c \<and> y \<noteq> x \<and> declaresDependency c x
                    \<and> dependsChainAvoiding (configOf fs1) (insert x ({?ix} - {x})) y z"
          then obtain y c where y: "configOf fs1 y = Some c" "y \<noteq> x"
            "declaresDependency c x"
            and chy: "dependsChainAvoiding (configOf fs1) (insert x ({?ix} - {x})) y z"
            by blast
          from y(1) cfa have "y \<in> set (map fst ?fsa)"
            using configOf_keys [of ?fsa y] by simp
          then obtain pre' post' where split: "map fst ?fsa = pre' @ y # post'"
            by (auto dest: split_list)
          from nested have nested': "resetDependentFields_scan k' e ms x ?ix (pre' @ y # post') ?fsa
                                       = Some (Inr fsb)"
            by (simp add: split)
          from outer [OF k'k nested' y(2)] obtain fsy gy where
            prey: "resetDependentFields_scan k' e ms x ?ix pre' ?fsa = Some (Inr fsy)"
            and gy: "map_of fsy y = Some gy"
            and iy: "isDependentOn e ms fsy gy x ?ix \<longrightarrow>
                       clearedAt fsb y
                       \<and> (y \<noteq> ?ix \<longrightarrow>
                            (\<forall>z. dependsChainAvoiding (configOf ?fsa)
                                    ({initiatorOr (Some x) y} - {y}) y z
                                 \<longrightarrow> clearedAt fsb z))"
            by blast
          from resetDependentFields_scan_frame [OF prey] cfa
          have "configOf fsy y = configOf fs1 y" by simp
          moreover from gy have "configOf fsy y = Some (config gy)" by (simp add: configOf_def)
          ultimately have "config gy = c" using y(1) by simp
          with y(3) have "isDependentOn e ms fsy gy x ?ix"
            using declaresDependency_isDependentOn [of gy x e ms fsy ?ix] by simp
          with iy have yb: "clearedAt fsb y"
            and rec: "y \<noteq> ?ix \<longrightarrow>
                        (\<forall>z. dependsChainAvoiding (configOf ?fsa)
                                ({initiatorOr (Some x) y} - {y}) y z
                             \<longrightarrow> clearedAt fsb z)"
            by simp_all
          have "clearedAt fsb z"
          proof (cases "y = ?ix")
            case True
            with y(2) have "y \<in> insert x ({?ix} - {x})" by simp
            from dependsChainAvoiding_start [OF chy this] yb show ?thesis by simp
          next
            case False
            have "{initiatorOr (Some x) y} - {y} \<subseteq> insert x ({?ix} - {x})"
              using initiatorOr_cases [of x y] by auto
            from dependsChainAvoiding_mono [OF chy this] cfa
            have "dependsChainAvoiding (configOf ?fsa) ({initiatorOr (Some x) y} - {y}) y z"
              by simp
            with rec False show ?thesis by blast
          qed
          then show ?thesis
            by (rule resetDependentFields_scan_keeps_cleared [OF after])
        qed
      qed
      from x2 chain show ?thesis by blast
    qed
  qed
  from pre g main show ?case by blast
qed

subsection \<open>Termination of the reset pass\<close>

lemma noPredicates_configOf:
  assumes "noPredicates fs" and "configOf fs x = Some c"
  shows "\<not> predicateMayHold c t"
proof -
  from assms(2) obtain f where "map_of fs x = Some f" and c: "config f = c"
    by (auto simp: configOf_def)
  then have "(x, f) \<in> set fs" by (simp add: map_of_SomeD)
  with assms(1) have "case dependsOn (config f) of Some (DepFn p) \<Rightarrow> False | _ \<Rightarrow> True"
    by (auto simp: noPredicates_def list_all_iff)
  with c show ?thesis
    by (auto simp: predicateMayHold_def split: option.splits depends_on.splits)
qed

lemma scanDepth_nested:
  assumes "rank x < rank t \<or> (\<not> noPredicates fs \<and> rank x < rank i)"
    and "j = t \<or> j = x"
  shows "scanDepth fs rank x j < scanDepth fs rank t i"
  using assms by (auto simp: scanDepth_def)

lemma resetDependentFields_scan_terminates:
  assumes acyc: "acyclicRank fs0 rank"
  shows "configOf fs1 = configOf fs0 \<Longrightarrow> map fst fs1 = map fst fs0
     \<Longrightarrow> configOf fs0 t \<noteq> None \<Longrightarrow> configOf fs0 i \<noteq> None
     \<Longrightarrow> scanDepth fs0 rank t i \<le> k
     \<Longrightarrow> set names \<subseteq> set (map fst fs0)
     \<Longrightarrow> \<exists>fs2. resetDependentFields_scan k e ms t i names fs1 = Some (Inr fs2)
           \<and> configOf fs2 = configOf fs0 \<and> map fst fs2 = map fst fs0
           \<and> (\<forall>y. map_of fs2 y = map_of fs1 y \<or> rank y < max (rank t) (rank i))"
proof (induction k arbitrary: t i names fs1 rule: less_induct)
  case (less k)
  note outer = less.IH
  from less.prems(3,4,5) have t: "configOf fs0 t \<noteq> None" and i: "configOf fs0 i \<noteq> None"
    and tk: "scanDepth fs0 rank t i \<le> k" by simp_all
  from less.prems(1,2,6) show ?case
  proof (induction names arbitrary: fs1)
    case Nil
    then show ?case by simp
  next
    case (Cons x rest)
    from Cons.prems have cf1: "configOf fs1 = configOf fs0" and keys1: "map fst fs1 = map fst fs0"
      and rest: "set rest \<subseteq> set (map fst fs0)" and xk: "x \<in> set (map fst fs0)"
      by simp_all
    show ?case
    proof (cases "x = t")
      case True
      from Cons.IH [OF cf1 keys1 rest] obtain fs2 where
        r: "resetDependentFields_scan k e ms t i rest fs1 = Some (Inr fs2)"
        and p: "configOf fs2 = configOf fs0" "map fst fs2 = map fst fs0"
          "\<forall>y. map_of fs2 y = map_of fs1 y \<or> rank y < max (rank t) (rank i)"
        by blast
      from True r have "resetDependentFields_scan k e ms t i (x # rest) fs1 = Some (Inr fs2)"
        by simp
      with p show ?thesis by blast
    next
      case xt: False
      from xk keys1 obtain g where g: "map_of fs1 x = Some g"
        by (metis map_of_eq_None_iff not_Some_eq set_map)
      have "configOf fs1 x = Some (config g)" using g by (simp add: configOf_def)
      with cf1 have cg: "configOf fs0 x = Some (config g)" by simp
      show ?thesis
      proof (cases "isDependentOn e ms fs1 g t i")
        case False
        from Cons.IH [OF cf1 keys1 rest] obtain fs2 where
          r: "resetDependentFields_scan k e ms t i rest fs1 = Some (Inr fs2)"
          and p: "configOf fs2 = configOf fs0" "map fst fs2 = map fst fs0"
            "\<forall>y. map_of fs2 y = map_of fs1 y \<or> rank y < max (rank t) (rank i)"
          by blast
        from xt g False r
        have "resetDependentFields_scan k e ms t i (x # rest) fs1 = Some (Inr fs2)"
          by simp
        with p show ?thesis by blast
      next
        case dep: True
        from isDependentOn_cases [OF dep]
        have rx: "rank x < rank t \<or> (\<not> noPredicates fs0 \<and> rank x < rank i)"
        proof
          assume "declaresDependency (config g) t"
          with xt have "mayDependOn x (config g) t" by (simp add: mayDependOn_def)
          with acyc cg t show ?thesis unfolding acyclicRank_def by blast
        next
          assume pm: "predicateMayHold (config g) i"
          then have "mayDependOn x (config g) i" by (simp add: mayDependOn_def)
          with acyc cg i have "rank x < rank i" unfolding acyclicRank_def by blast
          moreover from pm noPredicates_configOf [OF _ cg] have "\<not> noPredicates fs0" by blast
          ultimately show ?thesis by simp
        qed
        then have rmax: "rank x < max (rank t) (rank i)" by auto
        let ?fs1' = "AList.update x (getNextResetField g False) fs1"
        let ?i' = "initiatorOr (Some t) x"
        have cf1': "configOf ?fs1' = configOf fs0"
          using configOf_update [OF g, of "getNextResetField g False"] cf1 by simp
        have keys1': "map fst ?fs1' = map fst fs0"
          using map_fst_update_present [OF g] keys1 by simp
        have fr1: "map_of ?fs1' y = map_of fs1 y \<or> rank y < max (rank t) (rank i)" for y
          using rmax by (cases "y = x") simp_all
        obtain fsm where
          mid: "configOf fsm = configOf fs0" "map fst fsm = map fst fs0"
            "\<forall>y. map_of fsm y = map_of fs1 y \<or> rank y < max (rank t) (rank i)"
          and step: "\<And>fs3. resetDependentFields_scan k e ms t i rest fsm = Some (Inr fs3)
                      \<Longrightarrow> resetDependentFields_scan k e ms t i (x # rest) fs1 = Some (Inr fs3)"
        proof (cases "x = i")
          case True
          have "resetDependentFields_scan k e ms t i (x # rest) fs1 = Some (Inr fs3)"
            if "resetDependentFields_scan k e ms t i rest ?fs1' = Some (Inr fs3)" for fs3
            using that xt g dep True by (simp add: Let_def)
          with cf1' keys1' fr1 that show ?thesis by blast
        next
          case xi: False
          have i': "?i' = t \<or> ?i' = x" by (rule initiatorOr_cases)
          from scanDepth_nested [OF rx i'] tk obtain k' where k: "k = Suc k'"
            and dk: "scanDepth fs0 rank x ?i' \<le> k'"
            by (cases k) auto
          from cg have cx: "configOf fs0 x \<noteq> None" by simp
          from i' t cx have ci': "configOf fs0 ?i' \<noteq> None" by auto
          have "k' < k" using k by simp
          from outer [OF this cf1' keys1' cx ci' dk, of "map fst ?fs1'"] keys1'
          obtain fsn where
            r2: "resetDependentFields_scan k' e ms x ?i' (map fst ?fs1') ?fs1' = Some (Inr fsn)"
            and cfn: "configOf fsn = configOf fs0" and keysn: "map fst fsn = map fst fs0"
            and frn: "\<forall>y. map_of fsn y = map_of ?fs1' y \<or> rank y < max (rank x) (rank ?i')"
            by auto
          have le: "max (rank x) (rank ?i') \<le> max (rank t) (rank i)"
            using i' rmax by auto
          have "map_of fsn y = map_of fs1 y \<or> rank y < max (rank t) (rank i)" for y
          proof -
            from frn have "map_of fsn y = map_of ?fs1' y \<or> rank y < max (rank x) (rank ?i')"
              by blast
            with fr1 [of y] le show ?thesis by auto
          qed
          moreover
          have "resetDependentFields_scan k e ms t i (x # rest) fs1 = Some (Inr fs3)"
            if "resetDependentFields_scan k e ms t i rest fsn = Some (Inr fs3)" for fs3
            using that xt g dep xi k r2 by (simp add: Let_def)
          ultimately show ?thesis using that cfn keysn by blast
        qed
        from Cons.IH [OF mid(1,2) rest] obtain fs3 where
          r3: "resetDependentFields_scan k e ms t i rest fsm = Some (Inr fs3)"
          and cf3: "configOf fs3 = configOf fs0" and keys3: "map fst fs3 = map fst fs0"
          and fr3: "\<forall>y. map_of fs3 y = map_of fsm y \<or> rank y < max (rank t) (rank i)"
          by blast
        have "map_of fs3 y = map_of fs1 y \<or> rank y < max (rank t) (rank i)" for y
        proof -
          from fr3 have "map_of fs3 y = map_of fsm y \<or> rank y < max (rank t) (rank i)" by blast
          moreover from mid(3)
          have "map_of fsm y = map_of fs1 y \<or> rank y < max (rank t) (rank i)" by blast
          ultimately show ?thesis by auto
        qed
        with step [OF r3] cf3 keys3 show ?thesis by blast
      qed
    qed
  qed
qed

lemma passDepth_scanDepth: "passDepth fs rank a = scanDepth fs rank a a"
  by (simp add: passDepth_def scanDepth_def)

subsection \<open>The pass of a changed field\<close>

lemma resetDependentFields_scan_declared:
  assumes scan: "resetDependentFields_scan k e ms a a (map fst fs) fs = Some (Inr fs')"
    and w: "configOf fs w = Some c" "w \<noteq> a" "declaresDependency c a"
    and ch: "dependsChainAvoiding (configOf fs) {a} w z"
  shows "clearedAt fs' z"
proof -
  from w(1) have "w \<in> set (map fst fs)" using configOf_keys [of fs w] by simp
  then obtain pre post where split: "map fst fs = pre @ w # post"
    by (auto dest: split_list)
  from scan have "resetDependentFields_scan k e ms a a (pre @ w # post) fs = Some (Inr fs')"
    by (simp add: split)
  from resetDependentFields_scan_chain [OF this w(2)] obtain fsw gw where
    pre: "resetDependentFields_scan k e ms a a pre fs = Some (Inr fsw)"
    and gw: "map_of fsw w = Some gw"
    and imp: "isDependentOn e ms fsw gw a a \<longrightarrow>
                clearedAt fs' w
                \<and> (w \<noteq> a \<longrightarrow>
                     (\<forall>z. dependsChainAvoiding (configOf fs) ({initiatorOr (Some a) w} - {w}) w z
                          \<longrightarrow> clearedAt fs' z))"
    by blast
  from resetDependentFields_scan_frame [OF pre] have "configOf fsw w = configOf fs w" by simp
  moreover from gw have "configOf fsw w = Some (config gw)" by (simp add: configOf_def)
  ultimately have "config gw = c" using w(1) by simp
  with w(3) have "isDependentOn e ms fsw gw a a"
    using declaresDependency_isDependentOn [of gw a e ms fsw a] by simp
  moreover have "{initiatorOr (Some a) w} - {w} \<subseteq> {a}"
    using initiatorOr_cases [of a w] by auto
  note dependsChainAvoiding_mono [OF ch this]
  ultimately show ?thesis using imp w(2) by blast
qed

lemma resetDependentFields_scan_top:
  assumes scan: "resetDependentFields_scan k e ms a a (map fst fs) fs = Some (Inr fs')"
    and split: "map fst fs = pre @ x # post"
    and xa: "x \<noteq> a"
  shows "\<exists>fsx g. resetDependentFields_scan k e ms a a pre fs = Some (Inr fsx)
           \<and> map_of fsx x = Some g
           \<and> (isDependentOn e ms fsx g a a \<longrightarrow>
                (\<forall>z. dependsChain (configOf fs) x z \<longrightarrow> clearedAt fs' z))"
proof -
  from scan have "resetDependentFields_scan k e ms a a (pre @ x # post) fs = Some (Inr fs')"
    by (simp add: split)
  from resetDependentFields_scan_chain [OF this xa] obtain fsx g where
    pre: "resetDependentFields_scan k e ms a a pre fs = Some (Inr fsx)"
    and g: "map_of fsx x = Some g"
    and imp: "isDependentOn e ms fsx g a a \<longrightarrow>
                clearedAt fs' x
                \<and> (x \<noteq> a \<longrightarrow>
                     (\<forall>z. dependsChainAvoiding (configOf fs) ({initiatorOr (Some a) x} - {x}) x z
                          \<longrightarrow> clearedAt fs' z))"
    by blast
  have "clearedAt fs' z"
    if dep: "isDependentOn e ms fsx g a a" and ch: "dependsChain (configOf fs) x z" for z
  proof -
    from dependsChain_avoiding [OF ch, of a] show ?thesis
    proof
      assume av: "dependsChainAvoiding (configOf fs) {a} x z"
      have "{initiatorOr (Some a) x} - {x} \<subseteq> {a}"
        using initiatorOr_cases [of a x] by auto
      from dependsChainAvoiding_mono [OF av this] imp dep xa show ?thesis by blast
    next
      assume "\<exists>w c. configOf fs w = Some c \<and> w \<noteq> a \<and> declaresDependency c a
                \<and> dependsChainAvoiding (configOf fs) {a} w z"
      then obtain w c where "configOf fs w = Some c" "w \<noteq> a" "declaresDependency c a"
        "dependsChainAvoiding (configOf fs) {a} w z" by blast
      then show ?thesis by (rule resetDependentFields_scan_declared [OF scan])
    qed
  qed
  with pre g show ?thesis by blast
qed

lemma resetDependentFields_terminates:
  assumes "acyclicRank fs rank" and "configOf fs a \<noteq> None" and "passDepth fs rank a \<le> fuel"
  shows "\<exists>fs'. resetDependentFields fuel e ms fs a None = Some (Inr fs')
           \<and> map fst fs' = map fst fs
           \<and> (\<forall>y. map_of fs' y = map_of fs y \<or> rank y < rank a)"
proof -
  from assms(3) have "scanDepth fs rank a a \<le> fuel" by (simp add: passDepth_scanDepth)
  from resetDependentFields_scan_terminates [OF assms(1) refl refl assms(2) assms(2) this,
      of "map fst fs" e ms]
  show ?thesis by (auto simp: resetDependentFields_def initiatorOr_def)
qed

text \<open>
  C2, as the claim states it, fails. \<open>city\<close> depends on \<open>country\<close> and has the default
  value \<open>Paris\<close>; after the reset pass for \<open>country\<close> its raw value is \<open>undefined\<close>, not
  its default value. And the pass does not reach every field that depends on a reset
  field: in \<open>mixedFields\<close> the pass for \<open>a\<close> resets \<open>b\<close>, the predicate of \<open>z\<close> holds of
  \<open>b\<close>, and \<open>z\<close> keeps its value, because the scan that \<open>b\<close> triggers asks the predicate
  about \<open>a\<close>.
\<close>

theorem C2_not_default_value_counterexample:
  "map_option (map_sum id (\<lambda>fs'. map_option (\<lambda>g. (rawValue g, defaultValue g)) (map_of fs' ''city'')))
     (resetDependentFields 2 plainEnv (metas plainWorld) addressFields ''country'' None)
   = Some (Inr (Some (Undefined, JStr ''Paris'')))
   \<and> map_option (map_sum id (\<lambda>fs'. (map_option rawValue (map_of fs' ''b''),
                                      map_option rawValue (map_of fs' ''z''))))
       (resetDependentFields 2 plainEnv (metas plainWorld) mixedFields ''a'' None)
     = Some (Inr (Some Undefined, Some (JStr ''keep'')))"
  by (simp add: resetDependentFields_def isDependentOn_def initiatorOr_def addressFields_def
      mixedFields_def predicateConfig_def dependentConfig_def numeral_2_eq_2 evaluation_defs)

text \<open>
  C2, amended. Whenever the reset pass for a changed field completes, every other field
  whose \<open>dependsOn\<close> declaration matches the changed field's name (by equality, by list
  membership, or by its predicate, evaluated when the scan reaches the field) is cleared:
  its raw, clean and displayed values are \<open>undefined\<close> (not the default value) and its
  errors are empty. The pass computes fields only: it runs no validator, keeps every
  configuration, and a field that it changes is cleared. The same holds recursively for
  every field that declares, by name or list, a dependency on a field reset in this way.
  For every acyclic dependency configuration the pass completes.
\<close>

theorem C2_dependents_are_cleared:
  "(\<forall>fs'. resetDependentFields fuel e ms fs a None = Some (Inr fs') \<longrightarrow>
      configOf fs' = configOf fs
      \<and> (\<forall>y. map_of fs' y = map_of fs y \<or> clearedAt fs' y)
      \<and> (\<forall>x c z. configOf fs x = Some c \<and> x \<noteq> a \<and> declaresDependency c a
              \<and> dependsChain (configOf fs) x z \<longrightarrow> clearedAt fs' z)
      \<and> (\<forall>pre x post. map fst fs = pre @ x # post \<and> x \<noteq> a \<longrightarrow>
            (\<exists>fsx g. resetDependentFields_scan fuel e ms a a pre fs = Some (Inr fsx)
               \<and> map_of fsx x = Some g
               \<and> (isDependentOn e ms fsx g a a \<longrightarrow>
                    (\<forall>z. dependsChain (configOf fs) x z \<longrightarrow> clearedAt fs' z)))))
   \<and> (acyclicRank fs rank \<and> configOf fs a \<noteq> None \<and> passDepth fs rank a \<le> fuel \<longrightarrow>
        (\<exists>fs'. resetDependentFields fuel e ms fs a None = Some (Inr fs')))"
proof -
  have partial: "configOf fs' = configOf fs
      \<and> (\<forall>y. map_of fs' y = map_of fs y \<or> clearedAt fs' y)
      \<and> (\<forall>x c z. configOf fs x = Some c \<and> x \<noteq> a \<and> declaresDependency c a
              \<and> dependsChain (configOf fs) x z \<longrightarrow> clearedAt fs' z)
      \<and> (\<forall>pre x post. map fst fs = pre @ x # post \<and> x \<noteq> a \<longrightarrow>
            (\<exists>fsx g. resetDependentFields_scan fuel e ms a a pre fs = Some (Inr fsx)
               \<and> map_of fsx x = Some g
               \<and> (isDependentOn e ms fsx g a a \<longrightarrow>
                    (\<forall>z. dependsChain (configOf fs) x z \<longrightarrow> clearedAt fs' z))))"
    if r: "resetDependentFields fuel e ms fs a None = Some (Inr fs')" for fs'
  proof -
    from r have scan: "resetDependentFields_scan fuel e ms a a (map fst fs) fs = Some (Inr fs')"
      by (simp add: resetDependentFields_def initiatorOr_def)
    note fr = resetDependentFields_scan_frame [OF scan]
    have byPredicate: "\<exists>fsx g. resetDependentFields_scan fuel e ms a a pre fs = Some (Inr fsx)
               \<and> map_of fsx x = Some g
               \<and> (isDependentOn e ms fsx g a a \<longrightarrow>
                    (\<forall>z. dependsChain (configOf fs) x z \<longrightarrow> clearedAt fs' z))"
      if "map fst fs = pre @ x # post" and "x \<noteq> a" for pre x post
      using that by (rule resetDependentFields_scan_top [OF scan])
    have byName: "clearedAt fs' z"
      if x: "configOf fs x = Some c" "x \<noteq> a" "declaresDependency c a"
        and ch: "dependsChain (configOf fs) x z" for x c z
    proof -
      from x(1) have "x \<in> set (map fst fs)" using configOf_keys [of fs x] by simp
      then obtain pre post where split: "map fst fs = pre @ x # post"
        by (auto dest: split_list)
      from byPredicate [OF split x(2)] obtain fsx g where
        pre: "resetDependentFields_scan fuel e ms a a pre fs = Some (Inr fsx)"
        and g: "map_of fsx x = Some g"
        and imp: "isDependentOn e ms fsx g a a \<longrightarrow>
                    (\<forall>z. dependsChain (configOf fs) x z \<longrightarrow> clearedAt fs' z)"
        by blast
      from resetDependentFields_scan_frame [OF pre] have "configOf fsx x = configOf fs x" by simp
      moreover from g have "configOf fsx x = Some (config g)" by (simp add: configOf_def)
      ultimately have "config g = c" using x(1) by simp
      with x(3) have "isDependentOn e ms fsx g a a"
        using declaresDependency_isDependentOn [of g a e ms fsx a] by simp
      with imp ch show ?thesis by blast
    qed
    from fr byName byPredicate show ?thesis by blast
  qed
  have total: "\<exists>fs'. resetDependentFields fuel e ms fs a None = Some (Inr fs')"
    if "acyclicRank fs rank \<and> configOf fs a \<noteq> None \<and> passDepth fs rank a \<le> fuel"
    using that resetDependentFields_terminates [of fs rank a fuel e ms] by blast
  from partial total show ?thesis by blast
qed

text \<open>
  C3, as the claim states it, fails. With two fields that depend on each other, the pass
  started by a change to \<open>a\<close> resets \<open>b\<close>, and the scan triggered by \<open>b\<close> resets \<open>a\<close>
  itself (its raw value was \<open>x\<close>). And in \<open>predicateFields\<close>, an acyclic configuration
  whose dependency graph has depth one, the pass for \<open>a\<close> does not complete with scans
  nested one deep: the scan that \<open>x1\<close> triggers asks the predicate of \<open>x2\<close> about \<open>a\<close>
  again and nests a further scan.
\<close>

theorem C3_initiator_is_reset_counterexample:
  "map_option (map_sum id (\<lambda>fs'. map_option rawValue (map_of fs' ''a'')))
     (resetDependentFields 1 plainEnv (metas plainWorld) cycleFields ''a'' None)
   = Some (Inr (Some Undefined))
   \<and> resetDependentFields 1 plainEnv (metas plainWorld) predicateFields ''a'' None = None"
  by (simp add: resetDependentFields_def isDependentOn_def initiatorOr_def cycleFields_def
      predicateFields_def predicateConfig_def dependentConfig_def evaluation_defs)

text \<open>
  C3, amended. During a reset pass started by a change to a field, a dependent field that
  is reset re-triggers the scan as the new trigger, unless it is the initiator of the scan
  that resets it. This guard is consulted only after the dependent field has been reset,
  so it does not keep the changed field from being reset when that field depends on a
  field that was reset. For every acyclic dependency configuration the pass completes and
  leaves the changed field, and every field whose rank is not below the changed field's,
  as it was; its scans nest no deeper than the rank of the changed field in the dependency
  graph when all dependencies are declared by name or list, and no deeper than twice that
  rank when there are predicates.
\<close>

theorem C3_acyclic_pass_terminates:
  assumes "acyclicRank fs rank"
    and "configOf fs a \<noteq> None"
    and "passDepth fs rank a \<le> fuel"
  shows "(\<exists>fs'. resetDependentFields fuel e ms fs a None = Some (Inr fs')
           \<and> map fst fs' = map fst fs
           \<and> map_of fs' a = map_of fs a
           \<and> (\<forall>y. rank a \<le> rank y \<longrightarrow> map_of fs' y = map_of fs y))
       \<and> (\<forall>k t i b g rest fs1.
             map_of fs1 b = Some g \<and> b \<noteq> t \<and> isDependentOn e ms fs1 g t i \<longrightarrow>
             resetDependentFields_scan k e ms t i (b # rest) fs1 =
               (if b = i then
                  resetDependentFields_scan k e ms t i rest
                    (AList.update b (getNextResetField g False) fs1)
                else
                  (case k of
                     0 \<Rightarrow> None
                   | Suc k' \<Rightarrow>
                       (case resetDependentFields_scan k' e ms b (initiatorOr (Some t) b)
                               (map fst (AList.update b (getNextResetField g False) fs1))
                               (AList.update b (getNextResetField g False) fs1) of
                          None \<Rightarrow> None
                        | Some (Inl err) \<Rightarrow> Some (Inl err)
                        | Some (Inr fs2) \<Rightarrow> resetDependentFields_scan k e ms t i rest fs2))))"
proof -
  from resetDependentFields_terminates [OF assms, of e ms] obtain fs' where
    run: "resetDependentFields fuel e ms fs a None = Some (Inr fs')"
    and keys: "map fst fs' = map fst fs"
    and fr: "\<forall>y. map_of fs' y = map_of fs y \<or> rank y < rank a"
    by blast
  from fr have "\<forall>y. rank a \<le> rank y \<longrightarrow> map_of fs' y = map_of fs y"
    by (metis not_less)
  with run keys have first: "\<exists>fs'. resetDependentFields fuel e ms fs a None = Some (Inr fs')
           \<and> map fst fs' = map fst fs
           \<and> map_of fs' a = map_of fs a
           \<and> (\<forall>y. rank a \<le> rank y \<longrightarrow> map_of fs' y = map_of fs y)"
    by auto
  have second: "resetDependentFields_scan k e ms t i (b # rest) fs1 =
               (if b = i then
                  resetDependentFields_scan k e ms t i rest
                    (AList.update b (getNextResetField g False) fs1)
                else
                  (case k of
                     0 \<Rightarrow> None
                   | Suc k' \<Rightarrow>
                       (case resetDependentFields_scan k' e ms b (initiatorOr (Some t) b)
                               (map fst (AList.update b (getNextResetField g False) fs1))
                               (AList.update b (getNextResetField g False) fs1) of
                          None \<Rightarrow> None
                        | Some (Inl err) \<Rightarrow> Some (Inl err)
                        | Some (Inr fs2) \<Rightarrow> resetDependentFields_scan k e ms t i rest fs2)))"
    if "map_of fs1 b = Some g \<and> b \<noteq> t \<and> isDependentOn e ms fs1 g t i"
    for k t i b g rest fs1
    using that by (simp add: Let_def)
  from first second show ?thesis by blast
qed

lemma addressFields_acyclic: "acyclicRank addressFields addressRank"
  unfolding acyclicRank_def configOf_def addressFields_def
  by (auto simp: mayDependOn_def declaresDependency_def predicateMayHold_def
      dependentConfig_def plainConfig_def plainField_def addressRank_def split: if_splits)

lemma addressFields_passDepth: "passDepth addressFields addressRank ''country'' = 2"
  by (simp add: passDepth_def noPredicates_def addressFields_def dependentConfig_def
      plainConfig_def plainField_def addressRank_def)

lemma addressFields_configOf:
  "configOf addressFields ''country'' = Some (plainConfig FString)"
  "configOf addressFields ''city'' = Some (dependentConfig ''country'' (JStr ''Paris''))"
  "configOf addressFields ''street'' = Some (dependentConfig ''city'' (JStr ''Main''))"
  by (simp_all add: configOf_def addressFields_def plainField_def)

lemma predicateFields_acyclic: "acyclicRank predicateFields predicateRank"
  unfolding acyclicRank_def configOf_def predicateFields_def
  by (auto simp: mayDependOn_def declaresDependency_def predicateMayHold_def
      predicateConfig_def plainConfig_def plainField_def predicateRank_def split: if_splits)

lemma predicateFields_passDepth: "passDepth predicateFields predicateRank ''a'' = 2"
  by (simp add: passDepth_def noPredicates_def predicateFields_def predicateConfig_def
      plainConfig_def plainField_def predicateRank_def)

theorem C2_dependents_are_cleared_witness:
  "(\<exists>fs'. resetDependentFields 2 plainEnv (metas plainWorld) addressFields ''country'' None
            = Some (Inr fs')
     \<and> (\<exists>g. map_of fs' ''city'' = Some g \<and> errors g = [] \<and> rawValue g = Undefined
            \<and> cleanValue g = Undefined \<and> value' g = Undefined)
     \<and> (\<exists>g. map_of fs' ''street'' = Some g \<and> errors g = [] \<and> rawValue g = Undefined
            \<and> cleanValue g = Undefined \<and> value' g = Undefined))
   \<and> (\<exists>fs'. resetDependentFields 2 plainEnv (metas plainWorld) predicateFields ''a'' None
            = Some (Inr fs')
     \<and> (\<exists>g. map_of fs' ''x1'' = Some g \<and> errors g = [] \<and> rawValue g = Undefined
            \<and> cleanValue g = Undefined \<and> value' g = Undefined))"
proof -
  note address = C2_dependents_are_cleared [of 2 plainEnv "metas plainWorld" addressFields
      "''country''" addressRank]
  note predicate = C2_dependents_are_cleared [of 2 plainEnv "metas plainWorld" predicateFields
      "''a''" predicateRank]
  have h: "acyclicRank addressFields addressRank \<and> configOf addressFields ''country'' \<noteq> None
           \<and> passDepth addressFields addressRank ''country'' \<le> 2"
    using addressFields_acyclic
    by (simp add: addressFields_configOf addressFields_passDepth)
  have city: "declaresDependency (dependentConfig ''country'' (JStr ''Paris'')) ''country''"
    by (simp add: declaresDependency_def dependentConfig_def)
  have c0: "dependsChain (configOf addressFields) ''city'' ''city''"
    by (rule dependsChain.chain_refl)
  have "declaresDependency (dependentConfig ''city'' (JStr ''Main'')) ''city''"
    by (simp add: declaresDependency_def dependentConfig_def)
  from dependsChain.chain_step [OF c0 addressFields_configOf(3) _ this]
  have c1: "dependsChain (configOf addressFields) ''city'' ''street''" by simp
  from address h obtain fs' where
    run: "resetDependentFields 2 plainEnv (metas plainWorld) addressFields ''country'' None
            = Some (Inr fs')"
    by blast
  with address have ch: "\<And>x c z. configOf addressFields x = Some c \<Longrightarrow> x \<noteq> ''country''
               \<Longrightarrow> declaresDependency c ''country''
               \<Longrightarrow> dependsChain (configOf addressFields) x z \<Longrightarrow> clearedAt fs' z"
    by blast
  from ch [OF addressFields_configOf(2) _ city c0] ch [OF addressFields_configOf(2) _ city c1]
  have "clearedAt fs' ''city''" and "clearedAt fs' ''street''" by simp_all
  with run have first: "\<exists>fs'. resetDependentFields 2 plainEnv (metas plainWorld) addressFields
                                 ''country'' None = Some (Inr fs')
     \<and> (\<exists>g. map_of fs' ''city'' = Some g \<and> errors g = [] \<and> rawValue g = Undefined
            \<and> cleanValue g = Undefined \<and> value' g = Undefined)
     \<and> (\<exists>g. map_of fs' ''street'' = Some g \<and> errors g = [] \<and> rawValue g = Undefined
            \<and> cleanValue g = Undefined \<and> value' g = Undefined)"
    by (auto simp: clearedAt_def cleared_def)
  have hp: "acyclicRank predicateFields predicateRank \<and> configOf predicateFields ''a'' \<noteq> None
           \<and> passDepth predicateFields predicateRank ''a'' \<le> 2"
  proof -
    have "configOf predicateFields ''a'' \<noteq> None"
      by (simp add: configOf_def predicateFields_def)
    with predicateFields_acyclic show ?thesis
      by (simp add: predicateFields_passDepth)
  qed
  from predicate hp obtain fsp where
    runp: "resetDependentFields 2 plainEnv (metas plainWorld) predicateFields ''a'' None
             = Some (Inr fsp)"
    by blast
  have split: "map fst predicateFields = [''a''] @ ''x1'' # [''x2'']"
    by (simp add: predicateFields_def)
  from predicate runp
  have "\<forall>pre x post. map fst predicateFields = pre @ x # post \<and> x \<noteq> ''a'' \<longrightarrow>
          (\<exists>fsx g. resetDependentFields_scan 2 plainEnv (metas plainWorld) ''a'' ''a'' pre
                      predicateFields = Some (Inr fsx)
             \<and> map_of fsx x = Some g
             \<and> (isDependentOn plainEnv (metas plainWorld) fsx g ''a'' ''a'' \<longrightarrow>
                  (\<forall>z. dependsChain (configOf predicateFields) x z \<longrightarrow> clearedAt fsp z)))"
    by blast
  then have "map fst predicateFields = [''a''] @ ''x1'' # [''x2''] \<and> ''x1'' \<noteq> ''a'' \<longrightarrow>
          (\<exists>fsx g. resetDependentFields_scan 2 plainEnv (metas plainWorld) ''a'' ''a'' [''a'']
                      predicateFields = Some (Inr fsx)
             \<and> map_of fsx ''x1'' = Some g
             \<and> (isDependentOn plainEnv (metas plainWorld) fsx g ''a'' ''a'' \<longrightarrow>
                  (\<forall>z. dependsChain (configOf predicateFields) ''x1'' z \<longrightarrow> clearedAt fsp z)))"
    by (rule allE [where x = "[''a'']"]) (erule allE [where x = "''x1''"], erule allE [where x = "[''x2'']"])
  with split obtain fsx g where
    pre: "resetDependentFields_scan 2 plainEnv (metas plainWorld) ''a'' ''a'' [''a'']
            predicateFields = Some (Inr fsx)"
    and g: "map_of fsx ''x1'' = Some g"
    and imp: "isDependentOn plainEnv (metas plainWorld) fsx g ''a'' ''a'' \<longrightarrow>
                (\<forall>z. dependsChain (configOf predicateFields) ''x1'' z \<longrightarrow> clearedAt fsp z)"
    by auto
  from pre have fsx: "fsx = predicateFields" by simp
  with g have "g = plainField (predicateConfig ''a'') (JStr ''y'')"
    by (simp add: predicateFields_def)
  then have "isDependentOn plainEnv (metas plainWorld) fsx g ''a'' ''a''"
    by (simp add: isDependentOn_def predicateConfig_def plainField_def)
  with imp dependsChain.chain_refl [of "configOf predicateFields" "''x1''"]
  have "clearedAt fsp ''x1''" by blast
  with runp have second: "\<exists>fs'. resetDependentFields 2 plainEnv (metas plainWorld)
                                   predicateFields ''a'' None = Some (Inr fs')
     \<and> (\<exists>g. map_of fs' ''x1'' = Some g \<and> errors g = [] \<and> rawValue g = Undefined
            \<and> cleanValue g = Undefined \<and> value' g = Undefined)"
    by (auto simp: clearedAt_def cleared_def)
  from first second show ?thesis by blast
qed

theorem C3_acyclic_pass_terminates_witness:
  "(\<exists>fs'. resetDependentFields 2 plainEnv (metas plainWorld) addressFields ''country'' None
            = Some (Inr fs')
     \<and> map fst fs' = [''country'', ''city'', ''street'']
     \<and> map_of fs' ''country'' = Some (plainField (plainConfig FString) (JStr ''NL'')))
   \<and> (\<exists>fs'. resetDependentFields 2 plainEnv (metas plainWorld) predicateFields ''a'' None
            = Some (Inr fs')
     \<and> map_of fs' ''a'' = Some (plainField (plainConfig FString) (JStr ''x'')))"
proof -
  have h2: "configOf addressFields ''country'' \<noteq> None"
    by (simp add: addressFields_configOf)
  have h3: "passDepth addressFields addressRank ''country'' \<le> 2"
    by (simp add: addressFields_passDepth)
  have p2: "configOf predicateFields ''a'' \<noteq> None"
    by (simp add: configOf_def predicateFields_def)
  have p3: "passDepth predicateFields predicateRank ''a'' \<le> 2"
    by (simp add: predicateFields_passDepth)
  from C3_acyclic_pass_terminates [OF addressFields_acyclic h2 h3, of plainEnv "metas plainWorld"]
  obtain fs' where
    "resetDependentFields 2 plainEnv (metas plainWorld) addressFields ''country'' None
       = Some (Inr fs')"
    and "map fst fs' = map fst addressFields"
    and "map_of fs' ''country'' = map_of addressFields ''country''"
    by blast
  then have first: "\<exists>fs'. resetDependentFields 2 plainEnv (metas plainWorld) addressFields
                             ''country'' None = Some (Inr fs')
     \<and> map fst fs' = [''country'', ''city'', ''street'']
     \<and> map_of fs' ''country'' = Some (plainField (plainConfig FString) (JStr ''NL''))"
    by (auto simp: addressFields_def)
  from C3_acyclic_pass_terminates [OF predicateFields_acyclic p2 p3, of plainEnv "metas plainWorld"]
  obtain fsp where
    "resetDependentFields 2 plainEnv (metas plainWorld) predicateFields ''a'' None
       = Some (Inr fsp)"
    and "map_of fsp ''a'' = map_of predicateFields ''a''"
    by blast
  then have second: "\<exists>fs'. resetDependentFields 2 plainEnv (metas plainWorld) predicateFields
                              ''a'' None = Some (Inr fs')
     \<and> map_of fs' ''a'' = Some (plainField (plainConfig FString) (JStr ''x''))"
    by (auto simp: predicateFields_def)
  from first second show ?thesis by blast
qed

subsection \<open>The clean-value invariant across a whole transition\<close>

lemma allFieldsInvariant_update:
  "allFieldsInvariant fs \<Longrightarrow> cleanValueInvariant f \<Longrightarrow> allFieldsInvariant (AList.update k f fs)"
  by (simp add: allFieldsInvariant_def AList.update_conv')

lemma cleared_cleanValueInvariant: "cleared g \<Longrightarrow> cleanValueInvariant g"
  by (simp add: cleared_def cleanValueInvariant_def)

lemma allFieldsInvariant_resetDependentFields:
  assumes "resetDependentFields fuel e ms fs a i = Some (Inr fs')"
    and "allFieldsInvariant fs"
  shows "allFieldsInvariant fs'"
proof -
  from assms(1) have "\<forall>y. map_of fs' y = map_of fs y \<or> clearedAt fs' y"
    using resetDependentFields_scan_frame [of fuel e ms a "initiatorOr i a" "map fst fs" fs fs']
    by (simp add: resetDependentFields_def)
  then have "map_of fs' y = map_of fs y \<or> clearedAt fs' y" for y by blast
  with assms(2) show ?thesis
    unfolding allFieldsInvariant_def clearedAt_def
    by (metis cleared_cleanValueInvariant option.inject)
qed

lemma allFieldsInvariant_processSkippableFields:
  assumes "processSkippableFields e ms fs = Inr fs'"
    and "allFieldsInvariant fs"
  shows "allFieldsInvariant fs'"
proof -
  from assms(1) have loop: "forEachFormField (map fst fs)
      (\<lambda>m t. if checkIsSkipField e m (getFormValues e fs ms) t
              then (case map_of t m of None \<Rightarrow> Inl TypeError
                    | Some f \<Rightarrow> Inr (AList.update m (getNextErrorsFreeField f) t))
              else Inr t) fs = Inr fs'"
    by (simp add: processSkippableFields_def Let_def)
  show ?thesis
  proof (rule forEachFormField_invariant [where P = allFieldsInvariant, OF loop assms(2)])
    fix m t t'
    assume "allFieldsInvariant t"
      and "(if checkIsSkipField e m (getFormValues e fs ms) t
            then (case map_of t m of None \<Rightarrow> Inl TypeError
                  | Some f \<Rightarrow> Inr (AList.update m (getNextErrorsFreeField f) t))
            else Inr t) = Inr t'"
    then show "allFieldsInvariant t'"
      by (auto split: if_splits option.splits
          intro: allFieldsInvariant_update cleanValueInvariant_reducers(1))
  qed
qed

lemma allFieldsInvariant_triggerScheduledFieldsValidations:
  assumes "triggerScheduledFieldsValidations e n fin (fs, w) = Inr (fs', w')"
    and "allFieldsInvariant fs"
  shows "allFieldsInvariant fs'"
proof -
  let ?P = "\<lambda>t. allFieldsInvariant (fst t)"
  from assms(1) have loop: "forEachFormField (map fst fs)
      (scheduledFieldCallback e n fin (getFormValues e fs (metas w))) (fs, w) = Inr (fs', w')"
    by (simp add: triggerScheduledFieldsValidations_def Let_def)
  have "?P (fs', w')"
  proof (rule forEachFormField_invariant [where P = ?P, OF loop])
    show "?P (fs, w)" using assms(2) by simp
  next
    fix m t t'
    assume P: "?P t"
      and "scheduledFieldCallback e n fin (getFormValues e fs (metas w)) m t = Inr t'"
    then have c: "scheduledFieldCallback e n fin (getFormValues e fs (metas w)) m (fst t, snd t)
                    = Inr (fst t', snd t')" by simp
    from c show "?P t'"
    proof (cases rule: scheduledFieldCallback_elim)
      case (validated g v f' w0)
      from cleanValueInvariant_executeFieldValidator [OF validated(6)] P validated(7)
      show ?thesis by (simp add: allFieldsInvariant_update)
    qed (use P in simp_all)
  qed
  then show ?thesis by simp
qed

lemma allFieldsInvariant_getNextFieldsState:
  assumes "getNextFieldsState fuel e n v fs isValidate isFormat fin w = Some (Inr (fs', w'))"
    and "allFieldsInvariant fs"
  shows "allFieldsInvariant fs'"
proof -
  from assms(1) obtain f0 where f0: "map_of fs n = Some f0"
    by (auto simp: getNextFieldsState_def split: option.splits)
  from assms(1) f0 obtain fs1 f1 w1 fv fs2 where
    mid: "allFieldsInvariant fs1" "cleanValueInvariant f1"
    and skip: "processSkippableFields e (metas w1)
                (AList.update n (getNextSingleFieldState f1 fv isFormat) fs1) = Inr fs2"
    and trig: "triggerScheduledFieldsValidations e n fin (fs2, w1) = Inr (fs', w')"
  proof (cases isValidate)
    case True
    with assms(1) f0 obtain fs1 f1 w1 fv fs2 where
      "resetDependentFields fuel e (metas w) fs n None = Some (Inr fs1)"
      "executeFieldValidator e fs1 w n fv fin = Inr (f1, w1)"
      "processSkippableFields e (metas w1)
         (AList.update n (getNextSingleFieldState f1 fv isFormat) fs1) = Inr fs2"
      "triggerScheduledFieldsValidations e n fin (fs2, w1) = Inr (fs', w')"
      by (auto simp: getNextFieldsState_def Let_def split: option.splits sum.splits prod.splits)
    with that assms(2) show ?thesis
      using allFieldsInvariant_resetDependentFields cleanValueInvariant_executeFieldValidator
      by blast
  next
    case False
    with assms(1) f0 obtain fv fs2 where
      "processSkippableFields e (metas w)
         (AList.update n (getNextSingleFieldState (getNextErrorsFreeField f0) fv isFormat) fs)
         = Inr fs2"
      "triggerScheduledFieldsValidations e n fin (fs2, w) = Inr (fs', w')"
      by (auto simp: getNextFieldsState_def Let_def split: option.splits sum.splits prod.splits)
    with that assms(2) show ?thesis
      using cleanValueInvariant_reducers(1) by blast
  qed
  from mid have "allFieldsInvariant (AList.update n (getNextSingleFieldState f1 fv isFormat) fs1)"
    by (simp add: allFieldsInvariant_update cleanValueInvariant_reducers(5))
  from allFieldsInvariant_processSkippableFields [OF skip this]
    allFieldsInvariant_triggerScheduledFieldsValidations [OF trig]
  show ?thesis by blast
qed

lemma allFieldsInvariant_validateFields:
  "validateFields e fs names (h, acc, w) = Inr (h', acc', w') \<Longrightarrow> allFieldsInvariant acc
     \<Longrightarrow> allFieldsInvariant acc'"
proof (induction names arbitrary: h acc w)
  case Nil
  then show ?case by simp
next
  case (Cons n names)
  from Cons.prems(1) obtain nextField w1 h1 where
    step: "executeFieldValidatorAsync e fs w n = Inr (nextField, w1)"
    and rest: "validateFields e fs names (h1, AList.update n nextField acc, w1) = Inr (h', acc', w')"
    by (auto simp: Let_def split: sum.splits)
  from cleanValueInvariant_executeFieldValidatorAsync [OF step] Cons.prems(2)
  have "allFieldsInvariant (AList.update n nextField acc)"
    by (simp add: allFieldsInvariant_update)
  from Cons.IH [OF rest this] show ?case .
qed

lemma allFieldsInvariant_validateForm:
  assumes "validateForm e frm w targetFields excludeFields = Inr (b, frm', w')"
    and "formFieldsRef frm' = Some fs'"
  shows "allFieldsInvariant fs'"
proof -
  from assms(1) obtain fs where fs: "formFieldsRef frm = Some fs"
    by (cases "formFieldsRef frm") (simp_all add: validateForm_def)
  let ?loop = "validateFields e fs
        (filter (\<lambda>n. \<not> isNotValidated e targetFields excludeFields
                         (getFormValues e fs (metas w)) fs n) (map fst fs))
        (False,
         map (\<lambda>(n, f). (n, getNextErrorsFreeField f))
           (filter (\<lambda>(n, f). isNotValidated e targetFields excludeFields
                                (getFormValues e fs (metas w)) fs n) fs),
         w)"
  obtain h where loop: "?loop = Inr (h, fs', w')"
  proof (cases ?loop)
    case (Inl err)
    with assms(1) fs show ?thesis by (simp add: validateForm_def Let_def)
  next
    case (Inr r)
    obtain h fs2 w2 where r: "r = (h, fs2, w2)" by (cases r)
    with Inr assms fs have "fs2 = fs'" and "w2 = w'"
      by (auto simp: validateForm_def Let_def)
    with Inr r that show ?thesis by simp
  qed
  have "allFieldsInvariant (map (\<lambda>(n, f). (n, getNextErrorsFreeField f))
           (filter (\<lambda>(n, f). isNotValidated e targetFields excludeFields
                                (getFormValues e fs (metas w)) fs n) fs))"
    unfolding allFieldsInvariant_def map_of_map_filter
    by (auto simp: cleanValueInvariant_reducers(1) split: if_splits)
  from allFieldsInvariant_validateFields [OF loop this] show ?thesis .
qed

text \<open>
  C1. The invariant "a field with errors has no clean value" fails after
  \<open>addFormFieldErrors\<close>: appending a \<open>server\<close> error to a field that holds the clean value
  \<open>a@b.c\<close> leaves the clean value in place. (The reducers, both validator functions,
  \<open>getNextFieldsState\<close> and \<open>validateForm\<close> keep the invariant, see the lemmas above.)
\<close>

theorem C1_addFormFieldErrors_keeps_cleanValue:
  "map_option (\<lambda>f. (errors f, cleanValue f))
     (fieldOf
        (addFormFieldErrors [(''email'', plainField (plainConfig FEmail) (JStr ''a@b.c''))]
           ''email'' [FieldError ErrServer (Text ''taken'')])
        ''email'')
   = Some ([FieldError ErrServer (Text ''taken'')], JStr ''a@b.c'')"
  by (simp add: addFormFieldErrors_def fieldOf_def plainField_def)

subsection \<open>The values that validators receive\<close>

lemma newEffects_trans:
  assumes "worldGrows w a" and "worldGrows a b"
  shows "newEffects w b = newEffects w a @ newEffects a b"
proof -
  from assms(1) obtain e1 where 1: "trace a = trace w @ e1"
    unfolding worldGrows_iff by blast
  from assms(2) obtain e2 where 2: "trace b = trace a @ e2"
    unfolding worldGrows_iff by blast
  from 1 2 show ?thesis by (simp add: newEffects_def)
qed

lemma newEffects_clear [simp]: "newEffects w (clearValidationScheduled m w') = newEffects w w'"
  by (simp add: newEffects_def clearValidationScheduled_def)

lemma newEffects_same [simp]: "newEffects w w = []"
  by (simp add: newEffects_def)

lemma executeFieldValidator_calls:
  assumes "executeFieldValidator e fs w n v fin = Inr (f', w')"
    and "CustomValidatorCalled k x \<in> set (newEffects w w')"
  shows "k = n \<and> (\<exists>f. map_of fs n = Some f \<and> x = sanitizeFieldValue e (ftype (config f)) v)"
proof -
  from assms(1) obtain f where f: "map_of fs n = Some f"
    by (auto simp: executeFieldValidator_def split: option.splits)
  obtain vr w1 where tv:
    "executeFieldTypeValidator e fs w f (sanitizeFieldValue e (ftype (config f)) v) = (vr, w1)"
    by (cases "executeFieldTypeValidator e fs w f (sanitizeFieldValue e (ftype (config f)) v)")
  from executeFieldTypeValidator_trace [OF tv] obtain ns where w1: "w1 = scheduleValidations ns w"
    by blast
  from assms have "k = n \<and> x = sanitizeFieldValue e (ftype (config f)) v"
    unfolding executeFieldValidator_unfold [OF f tv] Let_def newEffects_def w1
    by (auto split: if_splits option.splits prod.splits validator_response.splits)
  with f show ?thesis by simp
qed

lemma scheduled_loop_calls:
  assumes "triggerScheduledFieldsValidations e n fin (fs, w) = Inr (fs', w')"
  shows "worldGrows w w' \<and> (\<forall>x. CustomValidatorCalled n x \<notin> set (newEffects w w'))"
proof -
  let ?P = "\<lambda>t. worldGrows w (snd t) \<and> (\<forall>x. CustomValidatorCalled n x \<notin> set (newEffects w (snd t)))"
  from assms have loop: "forEachFormField (map fst fs)
      (scheduledFieldCallback e n fin (getFormValues e fs (metas w))) (fs, w) = Inr (fs', w')"
    by (simp add: triggerScheduledFieldsValidations_def Let_def)
  have "?P (fs', w')"
  proof (rule forEachFormField_invariant [where P = ?P, OF loop])
    show "?P (fs, w)" by simp
  next
    fix m t t'
    assume P: "?P t"
      and "scheduledFieldCallback e n fin (getFormValues e fs (metas w)) m t = Inr t'"
    then have c: "scheduledFieldCallback e n fin (getFormValues e fs (metas w)) m (fst t, snd t)
                    = Inr (fst t', snd t')" by simp
    note fr = scheduledFieldCallback_frame [OF c]
    from P fr(3) have g: "worldGrows w (snd t')" using worldGrows_trans by blast
    have step: "CustomValidatorCalled n x \<notin> set (newEffects (snd t) (snd t'))" for x
      using c
    proof (cases rule: scheduledFieldCallback_elim)
      case (validated g v f' w0)
      from executeFieldValidator_calls [OF validated(6), of n x] validated(1,8)
      show ?thesis by auto
    qed simp_all
    from P have "worldGrows w (snd t)" by simp
    from newEffects_trans [OF this fr(3)] P step g show "?P t'" by simp
  qed
  then show ?thesis by simp
qed

text \<open>
  C10. When \<open>getNextFieldsState\<close> receives a string for an interactive field, the call
  completes whenever its reset pass does. In every collection it returns, the raw value of
  the field is the value with its leading white space removed when no filter is configured
  (the filter is applied to that trimmed string otherwise), and every call of the field's
  custom validator made during the transition receives that same value. The trimmed string
  never begins with white space, and a value of spaces only is processed as the empty
  string.
\<close>

theorem C10_leading_whitespace_stripped:
  assumes "map_of fs n = Some f"
    and "checkIfHoneyFormFieldIsInteractive (config f)"
    and "isValidate \<longrightarrow> resetDependentFields fuel e (metas w) fs n None \<noteq> None"
  shows "getNextFieldsState fuel e n (JStr s) fs isValidate isFormat fin w \<noteq> None
       \<and> (\<forall>fs' w'. getNextFieldsState fuel e n (JStr s) fs isValidate isFormat fin w
                     = Some (Inr (fs', w'))
            \<longrightarrow> (\<exists>f'. map_of fs' n = Some f'
                   \<and> rawValue f' = (case filterCfg (config f) of
                                      None \<Rightarrow> JStr (trimStart s)
                                    | Some flt \<Rightarrow> flt (JStr (trimStart s))))
              \<and> (\<forall>x. CustomValidatorCalled n x \<in> set (newEffects w w')
                   \<longrightarrow> x = sanitizeFieldValue e (ftype (config f))
                             (case filterCfg (config f) of
                                None \<Rightarrow> JStr (trimStart s)
                              | Some flt \<Rightarrow> flt (JStr (trimStart s)))))
       \<and> (\<forall>c cs. trimStart s = c # cs \<longrightarrow> \<not> isWhiteSpace c)
       \<and> ((\<forall>c \<in> set s. c = CHR '' '') \<longrightarrow> trimStart s = [])"
proof -
  let ?v = "case filterCfg (config f) of None \<Rightarrow> JStr (trimStart s)
            | Some flt \<Rightarrow> flt (JStr (trimStart s))"
  have returns: "getNextFieldsState fuel e n (JStr s) fs isValidate isFormat fin w \<noteq> None"
    using assms
    by (auto simp: getNextFieldsState_def Let_def split: option.splits sum.splits prod.splits)
  have raw: "(\<exists>f'. map_of fs' n = Some f' \<and> rawValue f' = ?v)
           \<and> (\<forall>x. CustomValidatorCalled n x \<in> set (newEffects w w')
                \<longrightarrow> x = sanitizeFieldValue e (ftype (config f)) ?v)"
    if r: "getNextFieldsState fuel e n (JStr s) fs isValidate isFormat fin w = Some (Inr (fs', w'))"
    for fs' w'
  proof -
    from r assms(1,2) obtain fs1 f1 w1 fs2 where
      first: "(\<not> isValidate \<and> w1 = w)
              \<or> (resetDependentFields fuel e (metas w) fs n None = Some (Inr fs1)
                 \<and> executeFieldValidator e fs1 w n ?v fin = Inr (f1, w1))"
      and skip: "processSkippableFields e (metas w1)
               (AList.update n (getNextSingleFieldState f1 ?v isFormat) fs1) = Inr fs2"
      and trig: "triggerScheduledFieldsValidations e n fin (fs2, w1) = Inr (fs', w')"
      by (auto simp: getNextFieldsState_def Let_def trimStartIfString_def
          split: option.splits sum.splits prod.splits if_splits)
    have "map_of (AList.update n (getNextSingleFieldState f1 ?v isFormat) fs1) n
            = Some (getNextSingleFieldState f1 ?v isFormat)"
      by simp
    from processSkippableFields_rawValue [OF skip this]
    obtain g' where "map_of fs2 n = Some g'" and "rawValue g' = ?v" by auto
    with triggerScheduledFieldsValidations_changed_field [OF trig]
    have stored: "\<exists>f'. map_of fs' n = Some f' \<and> rawValue f' = ?v" by simp
    note later = scheduled_loop_calls [OF trig]
    have calls: "x = sanitizeFieldValue e (ftype (config f)) ?v"
      if x: "CustomValidatorCalled n x \<in> set (newEffects w w')" for x
      using first
    proof
      assume "\<not> isValidate \<and> w1 = w"
      with later x show ?thesis by simp
    next
      assume a: "resetDependentFields fuel e (metas w) fs n None = Some (Inr fs1)
                 \<and> executeFieldValidator e fs1 w n ?v fin = Inr (f1, w1)"
      then have cf: "configOf fs1 = configOf fs"
        using resetDependentFields_scan_frame [of fuel e "metas w" n "initiatorOr None n"
            "map fst fs" fs fs1]
        by (simp add: resetDependentFields_def)
      from a have ex: "executeFieldValidator e fs1 w n ?v fin = Inr (f1, w1)" by simp
      from executeFieldValidator_world [OF ex] have g: "worldGrows w w1" by simp
      from later have "worldGrows w1 w'" by simp
      from newEffects_trans [OF g this] x later
      have "CustomValidatorCalled n x \<in> set (newEffects w w1)" by simp
      from executeFieldValidator_calls [OF ex this] obtain g where
        g1: "map_of fs1 n = Some g" and xg: "x = sanitizeFieldValue e (ftype (config g)) ?v"
        by blast
      from cf have "configOf fs1 n = configOf fs n" by simp
      with g1 assms(1) have "config g = config f" by (simp add: configOf_def)
      with xg show ?thesis by simp
    qed
    from stored calls show ?thesis by blast
  qed
  show ?thesis
    using returns raw trimStart_no_leading_whitespace [of s] trimStart_spaces [of s]
    by blast
qed

theorem C10_leading_whitespace_stripped_witness:
  "getNextFieldsState 0 plainEnv ''name'' (JStr ''   '')
     [(''name'', plainField customConfig (JStr ''x''))] True True True plainWorld \<noteq> None
   \<and> map_option (map_sum id (\<lambda>(fs', w'). map_option rawValue (map_of fs' ''name'')))
       (getNextFieldsState 0 plainEnv ''name'' (JStr ''   '')
          [(''name'', plainField customConfig (JStr ''x''))] True True True plainWorld)
     = Some (Inr (Some (JStr [])))
   \<and> (\<exists>fs' w'. getNextFieldsState 0 plainEnv ''name'' (JStr ''   '')
          [(''name'', plainField customConfig (JStr ''x''))] True True True plainWorld
          = Some (Inr (fs', w'))
        \<and> CustomValidatorCalled ''name'' (JStr []) \<in> set (newEffects plainWorld w'))
   \<and> trimStart ''   '' = []"
proof -
  let ?f = "plainField customConfig (JStr ''x'')"
  let ?fs = "[(''name'', ?f)]"
  let ?r = "getNextFieldsState 0 plainEnv ''name'' (JStr ''   '') ?fs True True True plainWorld"
  have h1: "map_of ?fs ''name'' = Some ?f" by simp
  have h2: "checkIfHoneyFormFieldIsInteractive (config ?f)"
    by (simp add: evaluation_defs customConfig_def)
  have h3: "True \<longrightarrow> resetDependentFields 0 plainEnv (metas plainWorld) ?fs ''name'' None \<noteq> None"
    by (simp add: resetDependentFields_def)
  have sp: "\<forall>c \<in> set ''   ''. c = CHR '' ''" by simp
  have ev: "\<exists>fs' w' x. ?r = Some (Inr (fs', w'))
              \<and> CustomValidatorCalled ''name'' x \<in> set (newEffects plainWorld w')"
    by (simp add: getNextFieldsState_def resetDependentFields_def processSkippableFields_def
        triggerScheduledFieldsValidations_def scheduledFieldCallback_def evaluation_defs
        getNextValidatedField_def newEffects_def customConfig_def)
  then obtain fs' w' x where r: "?r = Some (Inr (fs', w'))"
    and x: "CustomValidatorCalled ''name'' x \<in> set (newEffects plainWorld w')" by blast
  have cfg: "filterCfg (config ?f) = None" "ftype (config ?f) = FString"
    by (simp_all add: evaluation_defs customConfig_def)
  have san: "sanitizeFieldValue plainEnv FString (JStr []) = JStr []"
    by (simp add: evaluation_defs)
  note main = C10_leading_whitespace_stripped [OF h1 h2 h3, of "''   ''" True True]
  from main sp have t0: "trimStart ''   '' = []" by blast
  from main r x have "x = sanitizeFieldValue plainEnv (ftype (config ?f))
      (case filterCfg (config ?f) of None \<Rightarrow> JStr (trimStart ''   '')
       | Some flt \<Rightarrow> flt (JStr (trimStart ''   '')))" by blast
  then have x0: "x = JStr []" by (simp add: cfg t0 san)
  from main r obtain f' where "map_of fs' ''name'' = Some f'"
    and "rawValue f' = (case filterCfg (config ?f) of None \<Rightarrow> JStr (trimStart ''   '')
       | Some flt \<Rightarrow> flt (JStr (trimStart ''   '')))" by blast
  then have raw: "map_option rawValue (map_of fs' ''name'') = Some (JStr [])"
    by (simp add: cfg t0)
  from r x x0 raw t0 show ?thesis by simp
qed

end
